theory Spec2Isabelle
  imports Complex_Main "HOL-Library.Word" "HOL-Library.Monad_Syntax"
begin

section \<open>Machine arithmetic of the C++ sources\<close>

text \<open>
  The C++ values are modelled as mathematical integers together with the range of their
  type. A signed computation whose mathematical result leaves the range of its type, and a
  division by zero, are undefined behaviour in C++: the model makes them error values, so
  that a function whose model returns \<open>Inr r\<close> returns \<open>r\<close> in every conforming execution.
\<close>

datatype cpp_error = SignedOverflow | DivisionByZero | AssertionViolation | OutOfRange

definition bindE :: "cpp_error + 'a \<Rightarrow> ('a \<Rightarrow> cpp_error + 'b) \<Rightarrow> cpp_error + 'b" where
  "bindE m f = (case m of Inl e \<Rightarrow> Inl e | Inr v \<Rightarrow> f v)"

definition int_range :: "int \<Rightarrow> bool" where
  "int_range x = (- 2147483648 \<le> x \<and> x \<le> 2147483647)"

definition llong_range :: "int \<Rightarrow> bool" where
  "llong_range x = (- 9223372036854775808 \<le> x \<and> x \<le> 9223372036854775807)"

text \<open>The value of an \<open>int\<close> expression, and of a \<open>long long\<close> expression.\<close>

definition as_int :: "int \<Rightarrow> cpp_error + int" where
  "as_int x = (if int_range x then Inr x else Inl SignedOverflow)"

definition as_llong :: "int \<Rightarrow> cpp_error + int" where
  "as_llong x = (if llong_range x then Inr x else Inl SignedOverflow)"

text \<open>C++ integer division truncates towards zero.\<close>

definition trunc_div :: "int \<Rightarrow> int \<Rightarrow> int" where
  "trunc_div a b = sgn a * sgn b * (\<bar>a\<bar> div \<bar>b\<bar>)"

definition llong_div :: "int \<Rightarrow> int \<Rightarrow> cpp_error + int" where
  "llong_div a b = (if b = 0 then Inl DivisionByZero else as_llong (trunc_div a b))"

section \<open>Saturation/LRS.cpp\<close>

subsection \<open>LRS::shouldUpdateLimits\<close>

text \<open>
  The function-local \<open>static unsigned cnt\<close> is state that outlives the call: the model
  takes its value and returns the new one. \<open>weightLimited\<close> and \<open>ageLimited\<close> are what
  \<open>getLimits()\<close> answers at the call.
\<close>

definition shouldUpdateLimits :: "bool \<Rightarrow> bool \<Rightarrow> 32 word \<Rightarrow> bool \<times> 32 word" where
  "shouldUpdateLimits weightLimited ageLimited cnt0 =
     (let cnt = cnt0 + 1 in
      if cnt = 500 \<or> ((weightLimited \<or> ageLimited) \<and> cnt > 50)
      then (True, 0)
      else (False, cnt))"

subsection \<open>LRS::estimatedReachableCount\<close>

text \<open>
  What the function reads from \<open>env\<close> and from the object. The declarations of these
  members are not part of the sources at hand; \<open>activeClauses\<close> is converted to
  \<open>long long\<close> on reading, the others are used as \<open>int\<close>.
\<close>

record lrs_env =
  activeClauses :: int
  elapsedMilliseconds :: int
  startTime :: int
  lrsFirstTimeCheck :: int
  timeLimitInDeciseconds :: int
  simulatedTimeLimit :: int

text \<open>
  The return statement the call leaves through: one of the two \<open>return -1\<close>, or the final
  \<open>return (processed*timeLeft)/timeSpent\<close> with the values of the dividend and of the
  divisor.
\<close>

datatype erc_exit = ReturnMinusOne | ReturnQuotient int int

definition estimatedReachableCount_exit :: "lrs_env \<Rightarrow> cpp_error + erc_exit" where
  "estimatedReachableCount_exit e =
     (let processed = activeClauses e;
          currTime = elapsedMilliseconds e in
      bindE (as_int (currTime - startTime e)) (\<lambda>timeSpent.
      bindE (as_int (lrsFirstTimeCheck e * timeLimitInDeciseconds e)) (\<lambda>firstCheck.
      if timeSpent < firstCheck then Inr ReturnMinusOne
      else
        bindE (if simulatedTimeLimit e \<noteq> 0
               then bindE (as_int (simulatedTimeLimit e * 100)) (\<lambda>l. as_int (l - currTime))
               else bindE (as_int (timeLimitInDeciseconds e * 100)) (\<lambda>l. as_int (l - currTime)))
          (\<lambda>timeLeft.
        if timeLeft \<le> 0 \<or> processed \<le> 10 then Inr ReturnMinusOne
        else bindE (as_llong (processed * timeLeft)) (\<lambda>n. Inr (ReturnQuotient n timeSpent))))))"

definition estimatedReachableCount :: "lrs_env \<Rightarrow> cpp_error + int" where
  "estimatedReachableCount e =
     bindE (estimatedReachableCount_exit e)
       (\<lambda>x. case x of ReturnMinusOne \<Rightarrow> Inr (- 1) | ReturnQuotient n d \<Rightarrow> llong_div n d)"

text \<open>
  The quantities of the specification, as it words them: \<open>elapsed = now - startTime\<close>,
  \<open>firstCheck = lrsFirstTimeCheck * timeLimitInDeciseconds\<close>,
  \<open>timeLeft = (simulatedTimeLimit? : timeLimit) * 100 - now\<close>, and the quotient
  \<open>processed * timeLeft / elapsed\<close>.
\<close>

definition spec_elapsed :: "lrs_env \<Rightarrow> int" where
  "spec_elapsed e = elapsedMilliseconds e - startTime e"

definition spec_firstCheck :: "lrs_env \<Rightarrow> int" where
  "spec_firstCheck e = lrsFirstTimeCheck e * timeLimitInDeciseconds e"

definition spec_timeLeft :: "lrs_env \<Rightarrow> int" where
  "spec_timeLeft e =
     (if simulatedTimeLimit e \<noteq> 0 then simulatedTimeLimit e else timeLimitInDeciseconds e) * 100
       - elapsedMilliseconds e"

definition spec_quotient :: "lrs_env \<Rightarrow> int" where
  "spec_quotient e = trunc_div (activeClauses e * spec_timeLeft e) (spec_elapsed e)"

definition spec_estimate :: "lrs_env \<Rightarrow> int" where
  "spec_estimate e =
     (if spec_elapsed e < spec_firstCheck e then - 1
      else if spec_timeLeft e \<le> 0 \<or> activeClauses e \<le> 10 then - 1
      else spec_quotient e)"

text \<open>No signed computation of the call overflows.\<close>

definition no_overflow :: "lrs_env \<Rightarrow> bool" where
  "no_overflow e =
     (int_range (spec_elapsed e) \<and> int_range (spec_firstCheck e) \<and>
      int_range ((if simulatedTimeLimit e \<noteq> 0 then simulatedTimeLimit e
                  else timeLimitInDeciseconds e) * 100) \<and>
      int_range (spec_timeLeft e) \<and>
      llong_range (activeClauses e * spec_timeLeft e))"

text \<open>Two calls used as concrete inputs below: scenario S6 of the specification (a 60 s
  limit, first check at 5 percent, half of the time gone, 1000 clauses activated), and a
  run without time limit (the limit is 0).\<close>

definition env_S6 :: lrs_env where
  "env_S6 = \<lparr>activeClauses = 1000, elapsedMilliseconds = 30000, startTime = 0,
     lrsFirstTimeCheck = 5, timeLimitInDeciseconds = 600, simulatedTimeLimit = 0\<rparr>"

definition env_no_time_limit :: lrs_env where
  "env_no_time_limit = \<lparr>activeClauses = 1000, elapsedMilliseconds = 5000, startTime = 0,
     lrsFirstTimeCheck = 5, timeLimitInDeciseconds = 0, simulatedTimeLimit = 0\<rparr>"

text \<open>A call at time 0 with no first check configured and a simulated limit of one second.\<close>

definition env_at_start :: lrs_env where
  "env_at_start = \<lparr>activeClauses = 11, elapsedMilliseconds = 0, startTime = 0,
     lrsFirstTimeCheck = 0, timeLimitInDeciseconds = 600, simulatedTimeLimit = 10\<rparr>"

section \<open>Kernel/Rebalancing/Inverters.cpp\<close>

subsection \<open>Terms, signature and theory\<close>

text \<open>
  Modelled from the spec: the declarations of \<open>Theory\<close>, \<open>Signature\<close>, \<open>Term\<close>, \<open>NumTraits\<close> and
  \<open>InversionContext\<close> are not among the sources; the types below follow the data model of
  the specification (a signature maps a functor to its arity, type, interpretation,
  constructor flag and destructors; interpreted symbols cover add, minus, mul, div and the
  numerals of Int, Rat and Real, and store and select of arrays).
  \<open>NumTraits<sort>::addI\<close> is \<open>addI sort\<close>, and so on.
\<close>

datatype numsort = IntegerConstantType | RationalConstantType | RealConstantType

datatype Interpretation =
    addI numsort | minusI numsort | mulI numsort | divI numsort
  | ARRAY_SELECT | ARRAY_STORE | OTHER_INTERPRETATION nat

datatype Constant = IntegerConstant int | RationalConstant rat | RealConstant rat

text \<open>
  A \<open>TermList\<close> is a variable or a compound term; a \<open>Term\<close> is a compound term, with its
  functor and arguments. Functors are numbers in the sources; the model leaves their type
  open, and numbers are an instance.
\<close>

datatype 'f TermList = Var nat | App 'f "'f TermList list"

record 'f Term =
  functor_of :: 'f
  args :: "'f TermList list"

type_synonym OperatorType = "nat list \<times> nat"

record 'f Symbol =
  arity :: nat
  fnType :: OperatorType
  interp :: "Interpretation option"
  constantValue :: "Constant option"
  termAlgebraCons :: bool
  destructorFunctors :: "'f list"
  termAlgebraDest :: "('f \<times> nat) option"

record 'f Signature =
  getFunction :: "'f \<Rightarrow> 'f Symbol"
  getInterpretingSymbol :: "Interpretation \<Rightarrow> 'f"
  getInterpretingSymbolT :: "Interpretation \<Rightarrow> OperatorType \<Rightarrow> 'f"
  representConstant :: "Constant \<Rightarrow> 'f"

record 'f InversionContext =
  topTerm :: "'f Term"
  topIdx :: "32 word"
  toWrap :: "'f TermList"

text \<open>
  \<open>t[n]\<close> and \<open>*t.nthArgument(n)\<close>, \<open>type.arg(n)\<close> and \<open>ctor->destructorFunctor(n)\<close>: an index
  that is out of range is an error of the model.
\<close>

definition Term_nth :: "'f Term \<Rightarrow> nat \<Rightarrow> cpp_error + 'f TermList" where
  "Term_nth t n = (if n < length (args t) then Inr (args t ! n) else Inl OutOfRange)"

definition OperatorType_arg :: "OperatorType \<Rightarrow> nat \<Rightarrow> cpp_error + nat" where
  "OperatorType_arg ty n = (if n < length (fst ty) then Inr (fst ty ! n) else Inl OutOfRange)"

definition destructorFunctor :: "'f Symbol \<Rightarrow> nat \<Rightarrow> cpp_error + 'f" where
  "destructorFunctor ctor n =
     (if n < length (destructorFunctors ctor) then Inr (destructorFunctors ctor ! n)
      else Inl OutOfRange)"

text \<open>
  Modelled from the spec: \<open>Theory::tryInterpretConstant\<close> is not among the sources. A term
  is a constant of a sort when it is a numeral symbol of that sort without arguments; the
  three functions below are the overloads for the three constant types.
\<close>

definition tryInterpretConstant :: "'f Signature \<Rightarrow> 'f TermList \<Rightarrow> Constant option" where
  "tryInterpretConstant sg t =
     (case t of
        Var x \<Rightarrow> None
      | App f ts \<Rightarrow> if ts = [] then constantValue (getFunction sg f) else None)"

definition tryInterpretConstantInt :: "'f Signature \<Rightarrow> 'f TermList \<Rightarrow> int option" where
  "tryInterpretConstantInt sg t =
     (case tryInterpretConstant sg t of Some (IntegerConstant n) \<Rightarrow> Some n | _ \<Rightarrow> None)"

definition tryInterpretConstantFrac :: "'f Signature \<Rightarrow> numsort \<Rightarrow> 'f TermList \<Rightarrow> rat option" where
  "tryInterpretConstantFrac sg s t =
     (case tryInterpretConstant sg t of
        Some (RationalConstant q) \<Rightarrow> if s = RationalConstantType then Some q else None
      | Some (RealConstant q) \<Rightarrow> if s = RealConstantType then Some q else None
      | _ \<Rightarrow> None)"

text \<open>
  Modelled from the spec: the term builders of \<open>NumTraits\<close> are not among the sources.
  \<open>number::add(a, b)\<close> is the term of the symbol interpreted as addition of the sort, applied
  to \<open>a\<close> and \<open>b\<close>, and so on; \<open>number::one()\<close> is the numeral 1 of the sort.
\<close>

definition number_add :: "'f Signature \<Rightarrow> numsort \<Rightarrow> 'f TermList \<Rightarrow> 'f TermList \<Rightarrow> 'f TermList" where
  "number_add sg s a b = App (getInterpretingSymbol sg (addI s)) [a, b]"

definition number_mul :: "'f Signature \<Rightarrow> numsort \<Rightarrow> 'f TermList \<Rightarrow> 'f TermList \<Rightarrow> 'f TermList" where
  "number_mul sg s a b = App (getInterpretingSymbol sg (mulI s)) [a, b]"

definition number_div :: "'f Signature \<Rightarrow> numsort \<Rightarrow> 'f TermList \<Rightarrow> 'f TermList \<Rightarrow> 'f TermList" where
  "number_div sg s a b = App (getInterpretingSymbol sg (divI s)) [a, b]"

definition number_minus :: "'f Signature \<Rightarrow> numsort \<Rightarrow> 'f TermList \<Rightarrow> 'f TermList" where
  "number_minus sg s a = App (getInterpretingSymbol sg (minusI s)) [a]"

definition oneC :: "numsort \<Rightarrow> Constant" where
  "oneC s = (case s of IntegerConstantType \<Rightarrow> IntegerConstant 1
             | RationalConstantType \<Rightarrow> RationalConstant 1
             | RealConstantType \<Rightarrow> RealConstant 1)"

definition number_one :: "'f Signature \<Rightarrow> numsort \<Rightarrow> 'f TermList" where
  "number_one sg s = App (representConstant sg (oneC s)) []"

subsection \<open>The inverter\<close>

definition nonZero :: "'f Signature \<Rightarrow> numsort \<Rightarrow> 'f TermList \<Rightarrow> bool" where
  "nonZero sg number t =
     (case tryInterpretConstantFrac sg number t of Some c \<Rightarrow> 0 \<noteq> c | None \<Rightarrow> False)"

text \<open>
  \<open>tryInvertMulInt\<close> returns a truth value and writes \<open>out\<close>: the model returns \<open>Some out\<close>
  for true and \<open>None\<close> for false. \<open>ALWAYS\<close>, \<open>ASS\<close>, \<open>ASS_REP\<close> and \<open>ASSERTION_VIOLATION\<close> are
  modelled as checked: a failed check is the error \<open>AssertionViolation\<close>.
\<close>

definition tryInvertMulInt :: "'f Signature \<Rightarrow> 'f InversionContext \<Rightarrow> cpp_error + 'f TermList option" where
  "tryInvertMulInt sg ctxt =
     bindE (Term_nth (topTerm ctxt) (unat (1 - topIdx ctxt))) (\<lambda>a'.
       case tryInterpretConstantInt sg a' of
         Some a \<Rightarrow>
           if a = 1 then Inr (Some (toWrap ctxt))
           else if a = - 1 then Inr (Some (number_mul sg IntegerConstantType a' (toWrap ctxt)))
           else Inr None
       | None \<Rightarrow> Inr None)"

definition doInvertMulInt :: "'f Signature \<Rightarrow> 'f InversionContext \<Rightarrow> cpp_error + 'f TermList" where
  "doInvertMulInt sg ctxt =
     bindE (tryInvertMulInt sg ctxt)
       (\<lambda>r. case r of Some out \<Rightarrow> Inr out | None \<Rightarrow> Inl AssertionViolation)"

definition canInvertMulInt :: "'f Signature \<Rightarrow> 'f InversionContext \<Rightarrow> cpp_error + bool" where
  "canInvertMulInt sg ctxt = bindE (tryInvertMulInt sg ctxt) (\<lambda>r. Inr (r \<noteq> None))"

text \<open>
  \<open>theory->isInterpretedFunction(fun)\<close> followed by \<open>theory->interpretFunction(fun)\<close> is the
  case distinction on the interpretation of the symbol. The cases of the \<open>switch\<close> are in the
  order of the source.
\<close>

definition canInvertTop :: "'f Signature \<Rightarrow> 'f InversionContext \<Rightarrow> cpp_error + bool" where
  "canInvertTop sg ctxt =
     (let t = topTerm ctxt;
          fun = functor_of t;
          sym = getFunction sg fun in
      case interp sym of
        Some inter' \<Rightarrow>
          (case inter' of
             addI RealConstantType \<Rightarrow> Inr True
           | addI RationalConstantType \<Rightarrow> Inr True
           | minusI RealConstantType \<Rightarrow> Inr True
           | minusI RationalConstantType \<Rightarrow> Inr True
           | mulI RealConstantType \<Rightarrow>
               bindE (Term_nth t (unat (1 - topIdx ctxt)))
                 (\<lambda>a. Inr (nonZero sg RealConstantType a))
           | mulI RationalConstantType \<Rightarrow>
               bindE (Term_nth t (unat (1 - topIdx ctxt)))
                 (\<lambda>a. Inr (nonZero sg RationalConstantType a))
           | mulI IntegerConstantType \<Rightarrow> canInvertMulInt sg ctxt
           | addI IntegerConstantType \<Rightarrow> Inr True
           | minusI IntegerConstantType \<Rightarrow> Inr True
           | ARRAY_STORE \<Rightarrow> Inr (topIdx ctxt = 2)
           | _ \<Rightarrow> Inr False)
      | None \<Rightarrow>
          if termAlgebraCons sym then Inr True
          else Inr False)"

definition invertTop :: "'f Signature \<Rightarrow> 'f InversionContext \<Rightarrow> cpp_error + 'f TermList" where
  "invertTop sg ctxt =
     bindE (canInvertTop sg ctxt) (\<lambda>ok.
     if \<not> ok then Inl AssertionViolation
     else
       let t = topTerm ctxt;
           index = topIdx ctxt;
           toWrap = toWrap ctxt;
           fun = functor_of t in
       case interp (getFunction sg fun) of
         Some inter' \<Rightarrow>
           (case inter' of
              addI number \<Rightarrow>
                bindE (Term_nth t (unat (1 - index)))
                  (\<lambda>a. Inr (number_add sg number toWrap (number_minus sg number a)))
            | minusI number \<Rightarrow> Inr (number_minus sg number toWrap)
            | mulI RealConstantType \<Rightarrow>
                bindE (Term_nth t (unat (1 - index)))
                  (\<lambda>a. Inr (number_mul sg RealConstantType toWrap
                     (number_div sg RealConstantType (number_one sg RealConstantType) a)))
            | mulI RationalConstantType \<Rightarrow>
                bindE (Term_nth t (unat (1 - index)))
                  (\<lambda>a. Inr (number_mul sg RationalConstantType toWrap
                     (number_div sg RationalConstantType (number_one sg RationalConstantType) a)))
            | mulI IntegerConstantType \<Rightarrow> doInvertMulInt sg ctxt
            | ARRAY_STORE \<Rightarrow>
                if topIdx ctxt \<noteq> 2 then Inl AssertionViolation
                else
                  let store = fnType (getFunction sg (functor_of t)) in
                  bindE (OperatorType_arg store 0) (\<lambda>s0.
                  bindE (OperatorType_arg store 1) (\<lambda>s1.
                  bindE (OperatorType_arg store 2) (\<lambda>s2.
                  let select = getInterpretingSymbolT sg ARRAY_SELECT ([s0, s1], s2) in
                  bindE (Term_nth t 1) (\<lambda>i. Inr (App select [toWrap, i])))))
            | _ \<Rightarrow> Inl AssertionViolation)
       | None \<Rightarrow>
           let sym = getFunction sg fun in
           if \<not> termAlgebraCons sym then Inl AssertionViolation
           else bindE (destructorFunctor sym (unat index)) (\<lambda>dtor. Inr (App dtor [toWrap])))"

subsection \<open>The intended theory\<close>

text \<open>
  Modelled from the spec: the theory under which terms are evaluated is not part of the
  sources. Values are integers, rationals, reals, arrays (indexed by integers) and
  constructor terms; \<open>eval\<close> evaluates a term under a valuation \<open>\<rho>\<close> of the variables and an
  interpretation \<open>J\<close> of the uninterpreted symbols, and is \<open>None\<close> on an ill-sorted term.
  Interpreted symbols have their arithmetic and array meaning, numerals their value,
  constructors build, and a destructor of position \<open>k\<close> selects the \<open>k\<close>-th argument of its
  constructor.
\<close>

datatype 'f val = IntV int | RatV rat | RealV real | ArrV "int \<Rightarrow> 'f val" | DataV 'f "'f val list"

definition constant_val :: "Constant \<Rightarrow> 'f val" where
  "constant_val c =
     (case c of IntegerConstant n \<Rightarrow> IntV n | RationalConstant q \<Rightarrow> RatV q
      | RealConstant q \<Rightarrow> RealV (of_rat q))"

definition val_sort :: "'f val \<Rightarrow> numsort option" where
  "val_sort v =
     (case v of IntV n \<Rightarrow> Some IntegerConstantType | RatV q \<Rightarrow> Some RationalConstantType
      | RealV r \<Rightarrow> Some RealConstantType | _ \<Rightarrow> None)"

definition val_add :: "numsort \<Rightarrow> 'f val \<Rightarrow> 'f val \<Rightarrow> 'f val option" where
  "val_add s a b =
     (case (s, a, b) of
        (IntegerConstantType, IntV x, IntV y) \<Rightarrow> Some (IntV (x + y))
      | (RationalConstantType, RatV x, RatV y) \<Rightarrow> Some (RatV (x + y))
      | (RealConstantType, RealV x, RealV y) \<Rightarrow> Some (RealV (x + y))
      | _ \<Rightarrow> None)"

definition val_mul :: "numsort \<Rightarrow> 'f val \<Rightarrow> 'f val \<Rightarrow> 'f val option" where
  "val_mul s a b =
     (case (s, a, b) of
        (IntegerConstantType, IntV x, IntV y) \<Rightarrow> Some (IntV (x * y))
      | (RationalConstantType, RatV x, RatV y) \<Rightarrow> Some (RatV (x * y))
      | (RealConstantType, RealV x, RealV y) \<Rightarrow> Some (RealV (x * y))
      | _ \<Rightarrow> None)"

definition val_div :: "numsort \<Rightarrow> 'f val \<Rightarrow> 'f val \<Rightarrow> 'f val option" where
  "val_div s a b =
     (case (s, a, b) of
        (RationalConstantType, RatV x, RatV y) \<Rightarrow> if y = 0 then None else Some (RatV (x / y))
      | (RealConstantType, RealV x, RealV y) \<Rightarrow> if y = 0 then None else Some (RealV (x / y))
      | _ \<Rightarrow> None)"

definition val_minus :: "numsort \<Rightarrow> 'f val \<Rightarrow> 'f val option" where
  "val_minus s a =
     (case (s, a) of
        (IntegerConstantType, IntV x) \<Rightarrow> Some (IntV (- x))
      | (RationalConstantType, RatV x) \<Rightarrow> Some (RatV (- x))
      | (RealConstantType, RealV x) \<Rightarrow> Some (RealV (- x))
      | _ \<Rightarrow> None)"

definition interp_apply :: "Interpretation \<Rightarrow> 'f val list \<Rightarrow> 'f val option" where
  "interp_apply i vs =
     (case (i, vs) of
        (addI s, [a, b]) \<Rightarrow> val_add s a b
      | (minusI s, [a]) \<Rightarrow> val_minus s a
      | (mulI s, [a, b]) \<Rightarrow> val_mul s a b
      | (divI s, [a, b]) \<Rightarrow> val_div s a b
      | (ARRAY_SELECT, [ArrV m, IntV k]) \<Rightarrow> Some (m k)
      | (ARRAY_STORE, [ArrV m, IntV k, v]) \<Rightarrow> Some (ArrV (m(k := v)))
      | _ \<Rightarrow> None)"

definition symbol_apply ::
  "'f Signature \<Rightarrow> ('f \<Rightarrow> 'f val list \<Rightarrow> 'f val) \<Rightarrow> 'f \<Rightarrow> 'f val list \<Rightarrow> 'f val option" where
  "symbol_apply sg J f vs =
     (let sym = getFunction sg f in
      case interp sym of
        Some i \<Rightarrow> interp_apply i vs
      | None \<Rightarrow>
          (case constantValue sym of
             Some c \<Rightarrow> if vs = [] then Some (constant_val c) else None
           | None \<Rightarrow>
               if termAlgebraCons sym then Some (DataV f vs)
               else
                 (case (termAlgebraDest sym, vs) of
                    (Some (c, k), [DataV c' ws]) \<Rightarrow>
                      if c' = c \<and> k < length ws then Some (ws ! k) else Some (J f vs)
                  | _ \<Rightarrow> Some (J f vs))))"

fun eval ::
  "'f Signature \<Rightarrow> (nat \<Rightarrow> 'f val) \<Rightarrow> ('f \<Rightarrow> 'f val list \<Rightarrow> 'f val) \<Rightarrow> 'f TermList \<Rightarrow> 'f val option" where
  "eval sg \<rho> J (Var x) = Some (\<rho> x)"
| "eval sg \<rho> J (App f ts) =
     (case those (map (eval sg \<rho> J) ts) of
        None \<Rightarrow> None
      | Some vs \<Rightarrow> symbol_apply sg J f vs)"

definition TermList_of :: "'f Term \<Rightarrow> 'f TermList" where
  "TermList_of t = App (functor_of t) (args t)"

subsection \<open>Well-formed signatures and contexts\<close>

text \<open>
  The invariants of the signature and of an inversion context the sources rely on: an
  interpreted symbol has the arity of its interpretation and is no constructor; a constructor
  has one destructor per argument; a numeral is not an interpreted function;
  \<open>getInterpretingSymbol\<close> and \<open>representConstant\<close> return a symbol with that interpretation
  and that value; the top term has as many arguments as its symbol's arity and \<open>topIdx\<close> is
  one of their positions.
\<close>

definition wf_interpreted :: "'f Symbol \<Rightarrow> Interpretation \<Rightarrow> bool" where
  "wf_interpreted symb i =
     (\<not> termAlgebraCons symb \<and>
      (case i of
         addI s \<Rightarrow> arity symb = 2
       | minusI s \<Rightarrow> arity symb = 1
       | mulI s \<Rightarrow> arity symb = 2
       | divI s \<Rightarrow> arity symb = 2
       | ARRAY_SELECT \<Rightarrow> arity symb = 2
       | ARRAY_STORE \<Rightarrow> arity symb = 3 \<and> length (fst (fnType symb)) = 3
       | OTHER_INTERPRETATION n \<Rightarrow> True))"

definition wf_constructor :: "'f Signature \<Rightarrow> 'f \<Rightarrow> bool" where
  "wf_constructor sg f =
     (let sym = getFunction sg f in
      constantValue sym = None \<and> length (destructorFunctors sym) = arity sym \<and>
      (\<forall>k < arity sym.
         let d = getFunction sg (destructorFunctors sym ! k) in
         interp d = None \<and> constantValue d = None \<and> \<not> termAlgebraCons d \<and>
         termAlgebraDest d = Some (f, k)))"

definition wf_signature :: "'f Signature \<Rightarrow> bool" where
  "wf_signature sg =
     ((\<forall>f i. interp (getFunction sg f) = Some i \<longrightarrow> wf_interpreted (getFunction sg f) i) \<and>
      (\<forall>f. termAlgebraCons (getFunction sg f) \<longrightarrow> wf_constructor sg f) \<and>
      (\<forall>f. constantValue (getFunction sg f) \<noteq> None \<longrightarrow> interp (getFunction sg f) = None) \<and>
      (\<forall>i. interp (getFunction sg (getInterpretingSymbol sg i)) = Some i) \<and>
      (\<forall>i ty. interp (getFunction sg (getInterpretingSymbolT sg i ty)) = Some i) \<and>
      (\<forall>c. constantValue (getFunction sg (representConstant sg c)) = Some c))"

definition wf_context :: "'f Signature \<Rightarrow> 'f InversionContext \<Rightarrow> bool" where
  "wf_context sg ctxt =
     (length (args (topTerm ctxt)) = arity (getFunction sg (functor_of (topTerm ctxt))) \<and>
      unat (topIdx ctxt) < length (args (topTerm ctxt)))"

text \<open>
  The table of the specification for \<open>canInvertTop\<close>, in its words: add and minus of any
  numeric sort; mul over Rat or Real with a non-zero constant at the other position; mul over
  Int with the constant 1 or -1 there; store at position 2; a term-algebra constructor.
\<close>

definition spec_canInvertTop :: "'f Signature \<Rightarrow> 'f InversionContext \<Rightarrow> bool" where
  "spec_canInvertTop sg ctxt =
     (let head = interp (getFunction sg (functor_of (topTerm ctxt)));
          other = args (topTerm ctxt) ! (1 - unat (topIdx ctxt)) in
      head = Some (addI IntegerConstantType) \<or> head = Some (addI RationalConstantType) \<or>
      head = Some (addI RealConstantType) \<or>
      head = Some (minusI IntegerConstantType) \<or> head = Some (minusI RationalConstantType) \<or>
      head = Some (minusI RealConstantType) \<or>
      (head = Some (mulI RationalConstantType) \<and>
         (case tryInterpretConstantFrac sg RationalConstantType other of
            Some c \<Rightarrow> c \<noteq> 0 | None \<Rightarrow> False)) \<or>
      (head = Some (mulI RealConstantType) \<and>
         (case tryInterpretConstantFrac sg RealConstantType other of
            Some c \<Rightarrow> c \<noteq> 0 | None \<Rightarrow> False)) \<or>
      (head = Some (mulI IntegerConstantType) \<and>
         (tryInterpretConstantInt sg other = Some 1 \<or> tryInterpretConstantInt sg other = Some (- 1))) \<or>
      (head = Some ARRAY_STORE \<and> topIdx ctxt = 2) \<or>
      termAlgebraCons (getFunction sg (functor_of (topTerm ctxt))))"

text \<open>
  The results of \<open>invertTop\<close> in the words of the specification: \<open>w + (-other)\<close> for add,
  \<open>-w\<close> for minus, \<open>w * (1/other)\<close> for mul over Rat and Real, \<open>w\<close> or \<open>other * w\<close> for mul
  over Int, \<open>select(w, i)\<close> for \<open>store(a, i, x)\<close>, and the destructor of the position applied
  to \<open>w\<close> for a constructor.
\<close>

definition spec_invertTop :: "'f Signature \<Rightarrow> 'f InversionContext \<Rightarrow> 'f TermList" where
  "spec_invertTop sg ctxt =
     (let t = topTerm ctxt; w = toWrap ctxt; i = unat (topIdx ctxt);
          other = args t ! (1 - i); symb = getFunction sg (functor_of t) in
      case interp symb of
        Some (addI s) \<Rightarrow> number_add sg s w (number_minus sg s other)
      | Some (minusI s) \<Rightarrow> number_minus sg s w
      | Some (mulI s) \<Rightarrow>
          if s = IntegerConstantType
          then (if tryInterpretConstantInt sg other = Some 1 then w else number_mul sg s other w)
          else number_mul sg s w (number_div sg s (number_one sg s) other)
      | Some ARRAY_STORE \<Rightarrow>
          App (getInterpretingSymbolT sg ARRAY_SELECT
                 ([fst (fnType symb) ! 0, fst (fnType symb) ! 1], fst (fnType symb) ! 2))
            [w, args t ! 1]
      | Some i' \<Rightarrow> w
      | None \<Rightarrow> App (destructorFunctors symb ! i) [w])"

text \<open>The heads for which the inverse is two-sided: add, minus and mul.\<close>

definition arithmetic_head :: "Interpretation option \<Rightarrow> bool" where
  "arithmetic_head h =
     (case h of Some (addI s) \<Rightarrow> True | Some (minusI s) \<Rightarrow> True | Some (mulI s) \<Rightarrow> True
      | _ \<Rightarrow> False)"

subsection \<open>A concrete signature\<close>

text \<open>A signature with a symbol for every interpretation and numeral, a pair constructor with
  its two destructors, and uninterpreted symbols.\<close>

datatype sym0 =
    Interpreted Interpretation | InterpretedT Interpretation OperatorType | Numeral Constant
  | PairCons | PairDest nat | Uninterpreted nat

definition plain_symbol :: "nat \<Rightarrow> sym0 Symbol" where
  "plain_symbol n = \<lparr>arity = n, fnType = ([], 0), interp = None, constantValue = None,
     termAlgebraCons = False, destructorFunctors = [], termAlgebraDest = None\<rparr>"

definition interpreted_symbol :: "Interpretation \<Rightarrow> sym0 Symbol" where
  "interpreted_symbol i =
     (plain_symbol
        (case i of addI s \<Rightarrow> 2 | minusI s \<Rightarrow> 1 | mulI s \<Rightarrow> 2 | divI s \<Rightarrow> 2
         | ARRAY_SELECT \<Rightarrow> 2 | ARRAY_STORE \<Rightarrow> 3 | OTHER_INTERPRETATION n \<Rightarrow> n))
       \<lparr>fnType := ([0, 1, 2], 0), interp := Some i\<rparr>"

definition sg0 :: "sym0 Signature" where
  "sg0 = \<lparr>getFunction = (\<lambda>f. case f of
              Interpreted i \<Rightarrow> interpreted_symbol i
            | InterpretedT i ty \<Rightarrow> interpreted_symbol i
            | Numeral c \<Rightarrow> (plain_symbol 0)\<lparr>constantValue := Some c\<rparr>
            | PairCons \<Rightarrow> (plain_symbol 2)\<lparr>termAlgebraCons := True,
                destructorFunctors := [PairDest 0, PairDest 1]\<rparr>
            | PairDest k \<Rightarrow> (plain_symbol 1)\<lparr>termAlgebraDest := Some (PairCons, k)\<rparr>
            | Uninterpreted n \<Rightarrow> plain_symbol n),
          getInterpretingSymbol = Interpreted,
          getInterpretingSymbolT = InterpretedT,
          representConstant = Numeral\<rparr>"

text \<open>\<open>x * 2 = w\<close> over the rationals, to be solved for \<open>x\<close>, with \<open>x = 3\<close> and \<open>w = 6\<close>.\<close>

definition ctx_mul :: "sym0 InversionContext" where
  "ctx_mul = \<lparr>topTerm = \<lparr>functor_of = Interpreted (mulI RationalConstantType),
        args = [Var 0, App (Numeral (RationalConstant 2)) []]\<rparr>,
      topIdx = 0, toWrap = Var 1\<rparr>"

definition rho_mul :: "nat \<Rightarrow> sym0 val" where
  "rho_mul x = (if x = 0 then RatV 3 else RatV 6)"

text \<open>\<open>store(a, i, x) = s\<close>, to be solved for \<open>x\<close>, where \<open>a\<close> is 0 everywhere, \<open>i = 0\<close>,
  and \<open>s\<close> is 1 everywhere.\<close>

definition ctx_store :: "sym0 InversionContext" where
  "ctx_store = \<lparr>topTerm = \<lparr>functor_of = Interpreted ARRAY_STORE, args = [Var 0, Var 1, Var 2]\<rparr>,
      topIdx = 2, toWrap = Var 3\<rparr>"

definition rho_store :: "nat \<Rightarrow> sym0 val" where
  "rho_store x = (if x = 0 then ArrV (\<lambda>k. IntV 0) else if x = 1 then IntV 0
                  else if x = 2 then IntV 7 else ArrV (\<lambda>k. IntV 1))"

definition J0 :: "sym0 \<Rightarrow> sym0 val list \<Rightarrow> sym0 val" where
  "J0 f vs = IntV 0"

text \<open>\<open>(-1) * x = w\<close> over the integers, to be solved for \<open>x\<close>.\<close>

definition ctx_mul_int :: "sym0 InversionContext" where
  "ctx_mul_int = \<lparr>topTerm = \<lparr>functor_of = Interpreted (mulI IntegerConstantType),
        args = [App (Numeral (IntegerConstant (- 1))) [], Var 0]\<rparr>,
      topIdx = 1, toWrap = Var 1\<rparr>"

text \<open>An uninterpreted binary symbol at the top.\<close>

definition ctx_free :: "sym0 InversionContext" where
  "ctx_free = \<lparr>topTerm = \<lparr>functor_of = Uninterpreted 2, args = [Var 0, Var 1]\<rparr>,
      topIdx = 0, toWrap = Var 2\<rparr>"

section \<open>Saturation/LRS.cpp: LRS::doSaturation\<close>

text \<open>
  The containers, the clauses, the limits, the timer, the statistics and the options are not
  part of the sources: the state of the saturation algorithm and of \<open>env\<close> is a type \<open>'s\<close>,
  a clause is a \<open>'c\<close>, and the functions \<open>doSaturation\<close> calls are parameters. A call that
  changes the state returns the new one; a call that does not return (an exception, such as
  the one that signals a refutation) is \<open>None\<close>. \<open>env_of\<close> gives what
  \<open>estimatedReachableCount\<close> reads. \<open>VDEBUG\<close> tells whether \<open>ASS\<close> and \<open>ASS_EQ\<close> are
  compiled in.
\<close>

datatype TerminationReason =
  REFUTATION | TIME_LIMIT | MEMORY_LIMIT | REFUTATION_NOT_FOUND | SATISFIABLE | UNKNOWN

datatype Store = NONE | UNPROCESSED | PASSIVE | ACTIVE

record ('s, 'c) lrs_ops =
  VDEBUG :: bool
  options_complete :: "'s \<Rightarrow> bool"
  newClausesToUnprocessed :: "'s \<Rightarrow> 's option"
  unprocessed_isEmpty :: "'s \<Rightarrow> bool"
  unprocessed_pop :: "'s \<Rightarrow> ('c \<times> 's) option"
  isRefutation :: "'c \<Rightarrow> bool"
  forwardSimplify :: "'c \<Rightarrow> 's \<Rightarrow> (bool \<times> 's) option"
  backwardSimplify :: "'c \<Rightarrow> 's \<Rightarrow> 's option"
  addToPassive :: "'c \<Rightarrow> 's \<Rightarrow> (bool \<times> 's) option"
  store :: "'c \<Rightarrow> 's \<Rightarrow> Store"
  setStore :: "'c \<Rightarrow> Store \<Rightarrow> 's \<Rightarrow> 's"
  simplCont_add :: "'c \<Rightarrow> 's \<Rightarrow> 's option"
  timeLimitReached :: "'s \<Rightarrow> bool"
  weightLimited :: "'s \<Rightarrow> bool"
  ageLimited :: "'s \<Rightarrow> bool"
  env_of :: "'s \<Rightarrow> lrs_env"
  passive_updateLimits :: "int \<Rightarrow> 's \<Rightarrow> 's option"
  onAllProcessed :: "'s \<Rightarrow> 's option"
  clausesFlushed :: "'s \<Rightarrow> bool"
  passive_isEmpty :: "'s \<Rightarrow> bool"
  passive_popSelected :: "'s \<Rightarrow> ('c \<times> 's) option"
  activate :: "'c \<Rightarrow> 's \<Rightarrow> (bool \<times> 's) option"
  handleUnsuccessfulActivation :: "'c \<Rightarrow> 's \<Rightarrow> 's option"

text \<open>
  The state of the loop: the state of the algorithm, the static counter of
  \<open>shouldUpdateLimits\<close>, and the local variable \<open>complete\<close>. \<open>limited\<close> is a history variable
  that the code does not have: it records that the limits were active after a limit update
  of this run.
\<close>

record 's loop_state =
  alg :: 's
  cnt :: "32 word"
  complete :: bool
  limited :: bool

definition ASS :: "('s, 'c) lrs_ops \<Rightarrow> bool \<Rightarrow> unit option" where
  "ASS ops b = (if VDEBUG ops \<and> \<not> b then None else Some ())"

text \<open>Lines 112 to 116: the update of the limits with an estimate that is not negative.\<close>

definition updateLimits_block ::
  "('s, 'c) lrs_ops \<Rightarrow> int \<Rightarrow> 's loop_state \<Rightarrow> 's loop_state option" where
  "updateLimits_block ops estimatedReachable st =
     do {
       s \<leftarrow> passive_updateLimits ops estimatedReachable (alg st);
       let active = weightLimited ops s \<or> ageLimited ops s;
       Some (st\<lparr>alg := s,
                complete := (if complete st then \<not> weightLimited ops s \<and> \<not> ageLimited ops s
                             else complete st),
                limited := (limited st \<or> active)\<rparr>)
     }"

text \<open>
  Lines 106 to 118: the checks at the end of the body of the \<open>while\<close> loop. \<open>Inl\<close> is a
  \<open>return\<close> from \<open>doSaturation\<close>, \<open>Inr\<close> the state at the end of the body. Undefined
  behaviour in \<open>estimatedReachableCount\<close> leaves the call without a result.
\<close>

definition check_limits ::
  "('s, 'c) lrs_ops \<Rightarrow> 's loop_state \<Rightarrow> (TerminationReason \<times> 's loop_state + 's loop_state) option" where
  "check_limits ops st =
     (if timeLimitReached ops (alg st) then Some (Inl (TIME_LIMIT, st))
      else
        (case shouldUpdateLimits (weightLimited ops (alg st)) (ageLimited ops (alg st)) (cnt st) of
           (update, n) \<Rightarrow>
             if update then
               (case estimatedReachableCount (env_of ops (alg st)) of
                  Inl e \<Rightarrow> None
                | Inr estimatedReachable \<Rightarrow>
                    if estimatedReachable \<ge> 0
                    then map_option Inr (updateLimits_block ops estimatedReachable (st\<lparr>cnt := n\<rparr>))
                    else Some (Inr (st\<lparr>cnt := n\<rparr>)))
             else Some (Inr (st\<lparr>cnt := n\<rparr>))))"

text \<open>Lines 88 to 118: the body of the \<open>while\<close> loop.\<close>

definition while_body ::
  "('s, 'c) lrs_ops \<Rightarrow> 's loop_state \<Rightarrow> (TerminationReason \<times> 's loop_state + 's loop_state) option" where
  "while_body ops st =
     do {
       (c, s) \<leftarrow> unprocessed_pop ops (alg st);
       _ \<leftarrow> ASS ops (\<not> isRefutation ops c);
       (fwd, s) \<leftarrow> forwardSimplify ops c s;
       (inPassive, s) \<leftarrow>
         (if fwd then do { s \<leftarrow> backwardSimplify ops c s; addToPassive ops c s }
          else Some (False, s));
       s \<leftarrow> (if inPassive
              then do { _ \<leftarrow> ASS ops (store ops c s = PASSIVE); simplCont_add ops c s }
              else do { _ \<leftarrow> ASS ops (store ops c s = UNPROCESSED);
                        Some (setStore ops c NONE s) });
       s \<leftarrow> newClausesToUnprocessed ops s;
       check_limits ops (st\<lparr>alg := s\<rparr>)
     }"

text \<open>Lines 87 to 119: the \<open>while\<close> loop.\<close>

partial_function (option) while_unprocessed ::
  "('s, 'c) lrs_ops \<Rightarrow> 's loop_state \<Rightarrow> (TerminationReason \<times> 's loop_state + 's loop_state) option" where
  "while_unprocessed ops st =
     (if unprocessed_isEmpty ops (alg st) then Some (Inr st)
      else
        do {
          r \<leftarrow> while_body ops st;
          case r of Inl res \<Rightarrow> Some (Inl res) | Inr st' \<Rightarrow> while_unprocessed ops st'
        })"

text \<open>Lines 85 to 139: the body of the \<open>for\<close> loop.\<close>

definition for_body ::
  "('s, 'c) lrs_ops \<Rightarrow> 's loop_state \<Rightarrow> (TerminationReason \<times> 's loop_state + 's loop_state) option" where
  "for_body ops st =
     do {
       s \<leftarrow> newClausesToUnprocessed ops (alg st);
       r \<leftarrow> while_unprocessed ops (st\<lparr>alg := s\<rparr>);
       case r of
         Inl res \<Rightarrow> Some (Inl res)
       | Inr st \<Rightarrow>
           do {
             s \<leftarrow> onAllProcessed ops (alg st);
             if \<not> clausesFlushed ops s then Some (Inr (st\<lparr>alg := s\<rparr>))
             else if passive_isEmpty ops s
             then Some (Inl (if complete st then SATISFIABLE else REFUTATION_NOT_FOUND,
                             st\<lparr>alg := s\<rparr>))
             else
               do {
                 (c, s) \<leftarrow> passive_popSelected ops s;
                 (isActivated, s) \<leftarrow> activate ops c s;
                 s \<leftarrow> (if \<not> isActivated then handleUnsuccessfulActivation ops c s else Some s);
                 if timeLimitReached ops s then Some (Inl (TIME_LIMIT, st\<lparr>alg := s\<rparr>))
                 else Some (Inr (st\<lparr>alg := s\<rparr>))
               }
           }
     }"

partial_function (option) for_loop ::
  "('s, 'c) lrs_ops \<Rightarrow> 's loop_state \<Rightarrow> (TerminationReason \<times> 's loop_state) option" where
  "for_loop ops st =
     do {
       r \<leftarrow> for_body ops st;
       case r of Inl res \<Rightarrow> Some res | Inr st' \<Rightarrow> for_loop ops st'
     }"

text \<open>
  \<open>doSaturation\<close>, called in state \<open>s\<close> with the static counter at \<open>n\<close>: the reason it returns
  and the state it leaves, or \<open>None\<close> when it does not return.
\<close>

definition doSaturation ::
  "('s, 'c) lrs_ops \<Rightarrow> 's \<Rightarrow> 32 word \<Rightarrow> (TerminationReason \<times> 's loop_state) option" where
  "doSaturation ops s n =
     for_loop ops \<lparr>alg = s, cnt = n, complete = options_complete ops s, limited = False\<rparr>"

text \<open>
  The invariant of the loop, and what every step of the loop keeps: \<open>complete\<close> does not
  turn from false to true, \<open>limited\<close> does not turn from true to false, and the invariant
  holds after the step if it held before.
\<close>

definition limits_imply_incomplete :: "'s loop_state \<Rightarrow> bool" where
  "limits_imply_incomplete st = (limited st \<longrightarrow> \<not> complete st)"

definition step_ok :: "'s loop_state \<Rightarrow> 's loop_state \<Rightarrow> bool" where
  "step_ok st st' =
     ((complete st' \<longrightarrow> complete st) \<and> (limited st \<longrightarrow> limited st') \<and>
      (limits_imply_incomplete st \<longrightarrow> limits_imply_incomplete st'))"

text \<open>
  A small instance of the parameters: clauses are numbers, the unprocessed and the passive
  container are lists, every clause passes forward simplification and is added to passive
  unless a limit is active, a limit update activates the weight limit and empties
  passive, activation generates nothing, and the clock and the options are those of
  scenario S6.
\<close>

record toy =
  toy_unprocessed :: "nat list"
  toy_passive :: "nat list"
  toy_limit :: bool

definition toy_ops :: "(toy, nat) lrs_ops" where
  "toy_ops = \<lparr>
     VDEBUG = True,
     options_complete = (\<lambda>s. True),
     newClausesToUnprocessed = Some,
     unprocessed_isEmpty = (\<lambda>s. toy_unprocessed s = []),
     unprocessed_pop = (\<lambda>s. case toy_unprocessed s of [] \<Rightarrow> None
                           | c # cs \<Rightarrow> Some (c, s\<lparr>toy_unprocessed := cs\<rparr>)),
     isRefutation = (\<lambda>c. False),
     forwardSimplify = (\<lambda>c s. Some (True, s)),
     backwardSimplify = (\<lambda>c s. Some s),
     addToPassive = (\<lambda>c s. if toy_limit s then Some (False, s)
                            else Some (True, s\<lparr>toy_passive := toy_passive s @ [c]\<rparr>)),
     store = (\<lambda>c s. if c \<in> set (toy_passive s) then PASSIVE else UNPROCESSED),
     setStore = (\<lambda>c t s. s),
     simplCont_add = (\<lambda>c s. Some s),
     timeLimitReached = (\<lambda>s. False),
     weightLimited = toy_limit,
     ageLimited = (\<lambda>s. False),
     env_of = (\<lambda>s. env_S6),
     passive_updateLimits = (\<lambda>n s. Some (s\<lparr>toy_passive := [], toy_limit := True\<rparr>)),
     onAllProcessed = Some,
     clausesFlushed = (\<lambda>s. True),
     passive_isEmpty = (\<lambda>s. toy_passive s = []),
     passive_popSelected = (\<lambda>s. case toy_passive s of [] \<Rightarrow> None
                               | c # cs \<Rightarrow> Some (c, s\<lparr>toy_passive := cs\<rparr>)),
     activate = (\<lambda>c s. Some (True, s)),
     handleUnsuccessfulActivation = (\<lambda>c s. Some s)\<rparr>"

definition toy_start :: toy where
  "toy_start = \<lparr>toy_unprocessed = [1], toy_passive = [], toy_limit = False\<rparr>"

definition toy_saturated :: toy where
  "toy_saturated = \<lparr>toy_unprocessed = [], toy_passive = [], toy_limit = False\<rparr>"

definition toy_limited :: toy where
  "toy_limited = \<lparr>toy_unprocessed = [], toy_passive = [], toy_limit = True\<rparr>"

section \<open>CASC/CASCMode.hpp\<close>

text \<open>
  Modelled from the spec: \<open>CASCMode::getSliceTime\<close>, \<open>CASCMode::runSchedule\<close> and
  \<open>CASCMode::runSlice\<close> are declared in the header, and their bodies are not among the
  sources. A slice is a string \<open><code>_<tdeci></code>\<close>: \<open>getSliceTime\<close> returns the number
  written after the last underscore and the text before it (\<open>chopped\<close>).
\<close>

definition decimal :: "string \<Rightarrow> nat" where
  "decimal ds = foldl (\<lambda>n c. 10 * n + (of_char c - 48)) 0 ds"

definition getSliceTime :: "string \<Rightarrow> nat \<times> string" where
  "getSliceTime sliceCode =
     (let digits = rev (takeWhile (\<lambda>c. c \<noteq> CHR ''_'') (rev sliceCode));
          chopped = take (length sliceCode - length digits - 1) sliceCode
      in (decimal digits, chopped))"

text \<open>
  Modelled from the spec: \<open>runSchedule\<close> goes through the slices in order, with the set
  \<open>remember\<close> of the codes already tried. A slice whose code is in \<open>remember\<close> is skipped;
  another one runs with the budget \<open>min(sliceTime, remainingBudget)\<close>; if it succeeds the
  result is true, otherwise its code is inserted into \<open>remember\<close> and the next slice is tried;
  the result is false when no slice is left. Running a slice (\<open>runSlice\<close>) and the budget
  that remains of \<open>ds\<close> (\<open>remainingBudget\<close>) depend on the state \<open>'w\<close> of the process and its
  clock, and are parameters; \<open>remember\<close> is passed by reference, so the model returns it. The
  specification gives the parameter \<open>fallback\<close> no role.
\<close>

fun runSchedule ::
  "(string \<Rightarrow> nat \<Rightarrow> 'w \<Rightarrow> bool \<times> 'w) \<Rightarrow> (nat \<Rightarrow> 'w \<Rightarrow> nat) \<Rightarrow>
   string list \<Rightarrow> nat \<Rightarrow> string set \<Rightarrow> bool \<Rightarrow> 'w \<Rightarrow> bool \<times> string set \<times> 'w" where
  "runSchedule runSlice remainingBudget [] ds remember fallback w = (False, remember, w)"
| "runSchedule runSlice remainingBudget (sliceCode # schedule) ds remember fallback w =
     (case getSliceTime sliceCode of
        (sliceTime, chopped) \<Rightarrow>
          if chopped \<in> remember
          then runSchedule runSlice remainingBudget schedule ds remember fallback w
          else
            (case runSlice sliceCode (min sliceTime (remainingBudget ds w)) w of
               (success, w') \<Rightarrow>
                 if success then (True, remember, w')
                 else runSchedule runSlice remainingBudget schedule ds
                        (insert chopped remember) fallback w'))"

text \<open>
  The slices that \<open>runSchedule\<close> runs, each with its budget, in the order of the runs.
\<close>

fun slicesRun ::
  "(string \<Rightarrow> nat \<Rightarrow> 'w \<Rightarrow> bool \<times> 'w) \<Rightarrow> (nat \<Rightarrow> 'w \<Rightarrow> nat) \<Rightarrow>
   string list \<Rightarrow> nat \<Rightarrow> string set \<Rightarrow> 'w \<Rightarrow> (string \<times> nat \<times> bool) list" where
  "slicesRun runSlice remainingBudget [] ds remember w = []"
| "slicesRun runSlice remainingBudget (sliceCode # schedule) ds remember w =
     (case getSliceTime sliceCode of
        (sliceTime, chopped) \<Rightarrow>
          if chopped \<in> remember
          then slicesRun runSlice remainingBudget schedule ds remember w
          else
            (case runSlice sliceCode (min sliceTime (remainingBudget ds w)) w of
               (success, w') \<Rightarrow>
                 (sliceCode, min sliceTime (remainingBudget ds w), success) #
                 (if success then []
                  else slicesRun runSlice remainingBudget schedule ds (insert chopped remember) w')))"

text \<open>
  A process for the examples: the state is the time used so far, a slice uses all of its
  budget, and only the strategy \<open>ott+1\<close> succeeds.
\<close>

definition toy_runSlice :: "string \<Rightarrow> nat \<Rightarrow> nat \<Rightarrow> bool \<times> nat" where
  "toy_runSlice sliceCode budget used = (snd (getSliceTime sliceCode) = ''ott+1'', used + budget)"

definition toy_schedule :: "string list" where
  "toy_schedule = [''dis+11_300'', ''lrs-4_20'', ''dis+11_7'', ''ott+1_900'', ''x_1'']"

definition toy_remaining :: "nat \<Rightarrow> nat \<Rightarrow> nat" where
  "toy_remaining ds used = ds - used"

section \<open>Indexing/LiteralSubstitutionTree.hpp\<close>

subsection \<open>Unification\<close>

text \<open>
  Modelled from the spec: substitutions and unification are not among the sources. A
  substitution maps variables to terms; \<open>unify_eqs\<close> solves a list of equations between
  terms, eliminating a variable or decomposing two applications of the same symbol at each
  step, and returns a most general unifier when there is a unifier.
\<close>

fun vars :: "'f TermList \<Rightarrow> nat set" where
  "vars (Var x) = {x}"
| "vars (App f ts) = (\<Union>t \<in> set ts. vars t)"

fun tsize :: "'f TermList \<Rightarrow> nat" where
  "tsize (Var x) = 1"
| "tsize (App f ts) = 1 + sum_list (map tsize ts)"

fun subst :: "(nat \<Rightarrow> 'f TermList) \<Rightarrow> 'f TermList \<Rightarrow> 'f TermList" where
  "subst \<sigma> (Var x) = \<sigma> x"
| "subst \<sigma> (App f ts) = App f (map (subst \<sigma>) ts)"

definition compose :: "(nat \<Rightarrow> 'f TermList) \<Rightarrow> (nat \<Rightarrow> 'f TermList) \<Rightarrow> nat \<Rightarrow> 'f TermList" where
  "compose \<sigma> \<tau> = (\<lambda>x. subst \<tau> (\<sigma> x))"

definition bind1 :: "nat \<Rightarrow> 'f TermList \<Rightarrow> nat \<Rightarrow> 'f TermList" where
  "bind1 x t = (\<lambda>y. if y = x then t else Var y)"

definition subst_eqs ::
  "(nat \<Rightarrow> 'f TermList) \<Rightarrow> ('f TermList \<times> 'f TermList) list \<Rightarrow> ('f TermList \<times> 'f TermList) list" where
  "subst_eqs \<sigma> E = map (\<lambda>(s, t). (subst \<sigma> s, subst \<sigma> t)) E"

definition vars_eqs :: "('f TermList \<times> 'f TermList) list \<Rightarrow> nat set" where
  "vars_eqs E = (\<Union>(s, t) \<in> set E. vars s \<union> vars t)"

definition size_eqs :: "('f TermList \<times> 'f TermList) list \<Rightarrow> nat" where
  "size_eqs E = sum_list (map (\<lambda>(s, t). tsize s + tsize t) E)"

lemma finite_vars: "finite (vars t)"
  by (induction t) auto

lemma finite_vars_eqs: "finite (vars_eqs E)"
  by (auto simp: vars_eqs_def finite_vars)

lemma subst_bind1_fresh: "x \<notin> vars s \<Longrightarrow> subst (bind1 x t) s = s"
  by (induction s) (auto simp: bind1_def map_idI)

lemma vars_subst_bind1: "vars (subst (bind1 x t) s) \<subseteq> (vars s - {x}) \<union> vars t"
  by (induction s) (auto simp: bind1_def)

lemma vars_eqs_eliminate:
  assumes "x \<notin> vars t"
  shows "vars_eqs (subst_eqs (bind1 x t) E) \<subseteq> (vars_eqs E \<union> vars t) - {x}"
  using assms vars_subst_bind1 [of x t]
  by (fastforce simp: vars_eqs_def subst_eqs_def)

lemma card_eliminate:
  assumes "x \<notin> vars t"
  shows "card (vars_eqs (subst_eqs (bind1 x t) E)) < card (insert x (vars t \<union> vars_eqs E))"
proof -
  have "vars_eqs (subst_eqs (bind1 x t) E) \<subset> insert x (vars t \<union> vars_eqs E)"
    using vars_eqs_eliminate [OF assms, of E] by auto
  then show ?thesis
    by (intro psubset_card_mono) (simp_all add: finite_vars finite_vars_eqs)
qed

lemma vars_eqs_zip: "length ts = length us \<Longrightarrow>
    vars_eqs (zip ts us) = (\<Union>t \<in> set ts. vars t) \<union> (\<Union>u \<in> set us. vars u)"
  by (induction ts us rule: list_induct2) (auto simp: vars_eqs_def)

lemma size_eqs_zip: "length ts = length us \<Longrightarrow>
    size_eqs (zip ts us) = sum_list (map tsize ts) + sum_list (map tsize us)"
  by (induction ts us rule: list_induct2) (auto simp: size_eqs_def)

lemma vars_eqs_append: "vars_eqs (E @ F) = vars_eqs E \<union> vars_eqs F"
  by (auto simp: vars_eqs_def)

lemma size_eqs_append: "size_eqs (E @ F) = size_eqs E + size_eqs F"
  by (simp add: size_eqs_def)

lemma vars_eqs_Cons: "vars_eqs ((s, t) # E) = vars s \<union> vars t \<union> vars_eqs E"
  by (auto simp: vars_eqs_def)

lemma size_eqs_Cons: "size_eqs ((s, t) # E) = tsize s + tsize t + size_eqs E"
  by (simp add: size_eqs_def)

function unify_eqs :: "('f TermList \<times> 'f TermList) list \<Rightarrow> (nat \<Rightarrow> 'f TermList) option" where
  "unify_eqs [] = Some Var"
| "unify_eqs ((Var x, t) # E) =
     (if t = Var x then unify_eqs E
      else if x \<in> vars t then None
      else map_option (compose (bind1 x t)) (unify_eqs (subst_eqs (bind1 x t) E)))"
| "unify_eqs ((App f ts, Var x) # E) =
     (if x \<in> vars (App f ts) then None
      else map_option (compose (bind1 x (App f ts)))
             (unify_eqs (subst_eqs (bind1 x (App f ts)) E)))"
| "unify_eqs ((App f ts, App g us) # E) =
     (if f = g \<and> length ts = length us then unify_eqs (zip ts us @ E) else None)"
  by pat_completeness auto

termination
proof (relation "(\<lambda>E. card (vars_eqs E)) <*mlex*> measure size_eqs")
  show "wf ((\<lambda>E. card (vars_eqs E)) <*mlex*> measure size_eqs)"
    by (simp add: wf_mlex)
next
  fix x :: nat and t :: "'f TermList" and E
  assume "t = Var x"
  have "card (vars_eqs E) \<le> card (vars_eqs ((Var x, t) # E))"
    by (intro card_mono) (auto simp: vars_eqs_Cons finite_vars finite_vars_eqs)
  then show "(E, (Var x, t) # E) \<in> (\<lambda>E. card (vars_eqs E)) <*mlex*> measure size_eqs"
    by (intro mlex_leq) (simp_all add: size_eqs_Cons)
next
  fix x :: nat and t :: "'f TermList" and E
  assume "t \<noteq> Var x" "x \<notin> vars t"
  then show "(subst_eqs (bind1 x t) E, (Var x, t) # E)
      \<in> (\<lambda>E. card (vars_eqs E)) <*mlex*> measure size_eqs"
    using card_eliminate [of x t E]
    by (intro mlex_less) (simp add: vars_eqs_Cons)
next
  fix f :: 'f and ts x E
  assume "x \<notin> vars (App f ts)"
  then show "(subst_eqs (bind1 x (App f ts)) E, (App f ts, Var x) # E)
      \<in> (\<lambda>E. card (vars_eqs E)) <*mlex*> measure size_eqs"
    using card_eliminate [of x "App f ts" E]
    by (intro mlex_less) (simp add: vars_eqs_Cons Un_commute insert_commute)
next
  fix f g :: 'f and ts us :: "'f TermList list" and E
  assume a: "f = g \<and> length ts = length us"
  then have "vars_eqs (zip ts us @ E) = vars_eqs ((App f ts, App g us) # E)"
    by (simp add: vars_eqs_append vars_eqs_Cons vars_eqs_zip)
  moreover have "size_eqs (zip ts us @ E) < size_eqs ((App f ts, App g us) # E)"
    using a by (simp add: size_eqs_append size_eqs_Cons size_eqs_zip)
  ultimately show "(zip ts us @ E, (App f ts, App g us) # E)
      \<in> (\<lambda>E. card (vars_eqs E)) <*mlex*> measure size_eqs"
    by (intro mlex_leq) simp_all
qed

text \<open>A substitution unifies a list of equations when it makes both sides of each equal.\<close>

definition unifier :: "(nat \<Rightarrow> 'f TermList) \<Rightarrow> ('f TermList \<times> 'f TermList) list \<Rightarrow> bool" where
  "unifier \<tau> E = (\<forall>(s, t) \<in> set E. subst \<tau> s = subst \<tau> t)"

subsection \<open>The literal index\<close>

text \<open>
  Modelled from the spec: \<open>LiteralSubstitutionTree.cpp\<close> and \<open>SubstitutionTree\<close> are not among
  the sources; the header declares the operations. A literal has a predicate, a polarity and
  arguments. The index keeps one tree for every predicate and polarity; of a tree the model
  keeps the leaf data, clause and literal, in the order of insertion, and not the inner
  nodes. \<open>handleLiteral\<close> inserts or removes a leaf datum in the tree of the literal.
  \<open>getTree(lit, complementary)\<close> is the tree of the literal, or of its complement.
  \<open>getUnifications\<close> enumerates the leaf data of that tree whose literal is unifiable with
  the query (with its complement when \<open>complementary\<close> is set), with the unifier when
  \<open>retrieveSubstitutions\<close> is set.
\<close>

record 'f Literal =
  predicate :: nat
  polarity :: bool
  lit_args :: "'f TermList list"

record 'f LeafData =
  clause :: nat
  literal :: "'f Literal"

type_synonym 'f LiteralSubstitutionTree = "nat \<times> bool \<Rightarrow> 'f LeafData list"

definition header :: "'f Literal \<Rightarrow> nat \<times> bool" where
  "header lit = (predicate lit, polarity lit)"

definition complementaryLiteral :: "'f Literal \<Rightarrow> 'f Literal" where
  "complementaryLiteral lit = lit\<lparr>polarity := \<not> polarity lit\<rparr>"

definition empty_index :: "'f LiteralSubstitutionTree" where
  "empty_index = (\<lambda>h. [])"

definition getTree :: "'f LiteralSubstitutionTree \<Rightarrow> 'f Literal \<Rightarrow> bool \<Rightarrow> 'f LeafData list" where
  "getTree idx lit complementary =
     idx (predicate lit, if complementary then \<not> polarity lit else polarity lit)"

definition handleLiteral ::
  "'f LiteralSubstitutionTree \<Rightarrow> 'f Literal \<Rightarrow> nat \<Rightarrow> bool \<Rightarrow> 'f LiteralSubstitutionTree" where
  "handleLiteral idx lit cls insert' =
     (let d = \<lparr>clause = cls, literal = lit\<rparr>;
          tree = getTree idx lit False
      in idx(header lit := (if insert' then tree @ [d] else remove1 d tree)))"

definition unify_literals :: "'f Literal \<Rightarrow> 'f Literal \<Rightarrow> (nat \<Rightarrow> 'f TermList) option" where
  "unify_literals l q =
     (if header l = header q \<and> length (lit_args l) = length (lit_args q)
      then unify_eqs (zip (lit_args l) (lit_args q))
      else None)"

definition query_literal :: "'f Literal \<Rightarrow> bool \<Rightarrow> 'f Literal" where
  "query_literal lit complementary = (if complementary then complementaryLiteral lit else lit)"

definition getUnifications ::
  "'f LiteralSubstitutionTree \<Rightarrow> 'f Literal \<Rightarrow> bool \<Rightarrow> bool \<Rightarrow>
   ('f LeafData \<times> (nat \<Rightarrow> 'f TermList) option) list" where
  "getUnifications idx lit complementary retrieveSubstitutions =
     (let q = query_literal lit complementary in
      map (\<lambda>d. (d, if retrieveSubstitutions then unify_literals (literal d) q else None))
        (filter (\<lambda>d. unify_literals (literal d) q \<noteq> None) (getTree idx lit complementary)))"

text \<open>The index after a history of calls of \<open>handleLiteral\<close> on the empty index.\<close>

definition index_of :: "('f Literal \<times> nat \<times> bool) list \<Rightarrow> 'f LiteralSubstitutionTree" where
  "index_of history =
     foldl (\<lambda>idx (lit, cls, insert'). handleLiteral idx lit cls insert') empty_index history"

text \<open>
  Unifiers of literals: a substitution unifies two literals when it makes them equal, and
  is most general when every unifier is an instance of it.
\<close>

definition subst_literal :: "(nat \<Rightarrow> 'f TermList) \<Rightarrow> 'f Literal \<Rightarrow> 'f Literal" where
  "subst_literal \<sigma> l = l\<lparr>lit_args := map (subst \<sigma>) (lit_args l)\<rparr>"

definition literal_unifier :: "(nat \<Rightarrow> 'f TermList) \<Rightarrow> 'f Literal \<Rightarrow> 'f Literal \<Rightarrow> bool" where
  "literal_unifier \<sigma> l q = (subst_literal \<sigma> l = subst_literal \<sigma> q)"

definition literal_mgu :: "(nat \<Rightarrow> 'f TermList) \<Rightarrow> 'f Literal \<Rightarrow> 'f Literal \<Rightarrow> bool" where
  "literal_mgu \<sigma> l q =
     (literal_unifier \<sigma> l q \<and> (\<forall>\<tau>. literal_unifier \<tau> l q \<longrightarrow> (\<exists>\<delta>. \<tau> = compose \<sigma> \<delta>)))"

definition unifiable :: "'f Literal \<Rightarrow> 'f Literal \<Rightarrow> bool" where
  "unifiable l q = (\<exists>\<sigma>. literal_mgu \<sigma> l q)"

text \<open>
  Scenario S4 of the specification: the literals \<open>p(f(x))\<close>, \<open>p(f(g(y)))\<close> and \<open>p(z)\<close> of the
  clauses 101, 102 and 103 are inserted; the queries are \<open>p(f(g(c)))\<close> and \<open>p(g(c))\<close>. The symbols
  \<open>f\<close>, \<open>g\<close> and \<open>c\<close> are 21, 22 and 23, and \<open>p\<close> is the predicate 0.
\<close>

definition lit_p :: "nat TermList \<Rightarrow> nat Literal" where
  "lit_p t = \<lparr>predicate = 0, polarity = True, lit_args = [t]\<rparr>"

definition history_S4 :: "(nat Literal \<times> nat \<times> bool) list" where
  "history_S4 =
     [(lit_p (App 21 [Var 10]), 101, True),
      (lit_p (App 21 [App 22 [Var 11]]), 102, True),
      (lit_p (Var 12), 103, True)]"

text \<open>Every tree holds literals of its own predicate and polarity only.\<close>

definition wf_index :: "'f LiteralSubstitutionTree \<Rightarrow> bool" where
  "wf_index idx = (\<forall>h. \<forall>d \<in> set (idx h). header (literal d) = h)"

section \<open>Properties of Saturation/LRS.cpp\<close>

subsection \<open>The cadence of limit updates\<close>

text \<open>
  C6. Every call increments the counter. The call answers true, and leaves the counter at
  zero, exactly when the incremented counter is 500, or a weight or age limit is active and
  the incremented counter is above 50; every other call answers false and leaves the
  incremented counter. A counter below 500 (it starts at 0) does not wrap around and stays
  below 500.
\<close>

theorem shouldUpdateLimits_cadence:
  "shouldUpdateLimits wl al n =
     (if n + 1 = 500 \<or> ((wl \<or> al) \<and> 50 < n + 1) then (True, 0) else (False, n + 1))
   \<and> (unat n < 500 \<longrightarrow>
        unat (n + 1) = unat n + 1 \<and> unat (snd (shouldUpdateLimits wl al n)) < 500)"
proof -
  have eq: "shouldUpdateLimits wl al n =
     (if n + 1 = 500 \<or> ((wl \<or> al) \<and> 50 < n + 1) then (True, 0) else (False, n + 1))"
    by (simp add: shouldUpdateLimits_def Let_def)
  have inv: "unat (n + 1) = unat n + 1 \<and> unat (snd (shouldUpdateLimits wl al n)) < 500"
    if small: "unat n < 500"
  proof -
    have s: "unat (n + 1) = unat n + 1"
      using small by (simp add: unat_word_ariths)
    have e: "(n + 1 = 500) = (unat (n + 1) = 500)"
      by (simp add: word_unat_eq_iff)
    show ?thesis
      unfolding eq e using small s by auto
  qed
  from eq inv show ?thesis by blast
qed

theorem shouldUpdateLimits_cadence_witness:
  "shouldUpdateLimits False False 499 = (True, 0) \<and> shouldUpdateLimits True False 50 = (True, 0)
   \<and> shouldUpdateLimits False False 50 = (False, 51)
   \<and> unat (snd (shouldUpdateLimits False True 49)) < 500"
  using shouldUpdateLimits_cadence [of False False 499]
    shouldUpdateLimits_cadence [of True False 50]
    shouldUpdateLimits_cadence [of False False 50]
    shouldUpdateLimits_cadence [of False True 49]
  by simp

subsection \<open>The reachability estimate\<close>

lemma exit_Inr:
  assumes "estimatedReachableCount_exit e = Inr x"
  shows "x = (if spec_elapsed e < spec_firstCheck e then ReturnMinusOne
              else if spec_timeLeft e \<le> 0 \<or> activeClauses e \<le> 10 then ReturnMinusOne
              else ReturnQuotient (activeClauses e * spec_timeLeft e) (spec_elapsed e))"
  using assms
  by (auto simp: estimatedReachableCount_exit_def bindE_def as_int_def as_llong_def Let_def
      spec_elapsed_def spec_firstCheck_def spec_timeLeft_def split: if_splits sum.splits)

lemma exit_total:
  assumes "no_overflow e"
  shows "estimatedReachableCount_exit e =
          Inr (if spec_elapsed e < spec_firstCheck e then ReturnMinusOne
              else if spec_timeLeft e \<le> 0 \<or> activeClauses e \<le> 10 then ReturnMinusOne
              else ReturnQuotient (activeClauses e * spec_timeLeft e) (spec_elapsed e))"
  using assms
  by (auto simp: estimatedReachableCount_exit_def bindE_def as_int_def as_llong_def Let_def
      no_overflow_def spec_elapsed_def spec_firstCheck_def spec_timeLeft_def
      split: if_splits sum.splits)

lemma trunc_div_abs_le: "\<bar>trunc_div a b\<bar> \<le> \<bar>a\<bar>"
proof -
  define q where "q = \<bar>a\<bar> div \<bar>b\<bar>"
  have q0: "0 \<le> q" unfolding q_def by (simp add: pos_imp_zdiv_nonneg_iff div_int_pos_iff)
  have qa: "q \<le> \<bar>a\<bar>"
  proof (cases "b = 0")
    case True
    then show ?thesis by (simp add: q_def)
  next
    case False
    then have "1 \<le> \<bar>b\<bar>" by simp
    then have "\<bar>a\<bar> div \<bar>b\<bar> \<le> \<bar>a\<bar> div 1"
      by (intro zdiv_mono2) simp_all
    then show ?thesis by (simp add: q_def)
  qed
  have "\<bar>trunc_div a b\<bar> = \<bar>sgn a\<bar> * \<bar>sgn b\<bar> * q"
    using q0 by (simp add: trunc_div_def abs_mult q_def)
  also have "\<dots> \<le> 1 * 1 * q"
    using q0 by (intro mult_mono) (simp_all add: abs_sgn_eq)
  finally show ?thesis using qa by simp
qed

lemma trunc_div_nonneg: "0 \<le> a \<Longrightarrow> 0 < b \<Longrightarrow> 0 \<le> trunc_div a b"
  by (simp add: trunc_div_def pos_imp_zdiv_nonneg_iff sgn_if)

lemma llong_div_pos:
  assumes "llong_range n" "0 < n" "d \<noteq> 0"
  shows "llong_div n d = Inr (trunc_div n d)"
proof -
  have "\<bar>trunc_div n d\<bar> \<le> n" using trunc_div_abs_le [of n d] assms(2) by simp
  then have "llong_range (trunc_div n d)"
    using assms(1) unfolding llong_range_def by linarith
  then show ?thesis using assms(3) by (simp add: llong_div_def as_llong_def)
qed

lemma llong_div_Inr: "llong_div n d = Inr r \<Longrightarrow> d \<noteq> 0 \<and> r = trunc_div n d"
  by (auto simp: llong_div_def as_llong_def split: if_splits)

lemma erc_Inr:
  assumes "estimatedReachableCount e = Inr r"
  shows "r = spec_estimate e"
proof -
  from assms obtain x where x: "estimatedReachableCount_exit e = Inr x"
    by (auto simp: estimatedReachableCount_def bindE_def split: sum.splits)
  note xe = exit_Inr [OF x]
  show ?thesis
  proof (cases x)
    case ReturnMinusOne
    then show ?thesis using assms x xe
      by (auto simp: estimatedReachableCount_def bindE_def spec_estimate_def split: if_splits)
  next
    case (ReturnQuotient n d)
    then have "llong_div n d = Inr r" using assms x
      by (simp add: estimatedReachableCount_def bindE_def)
    then have "r = trunc_div n d" by (simp add: llong_div_Inr)
    then show ?thesis using ReturnQuotient xe
      by (auto simp: spec_estimate_def spec_quotient_def split: if_splits)
  qed
qed

lemma erc_total:
  assumes "no_overflow e"
    and "spec_elapsed e \<noteq> 0 \<or> spec_elapsed e < spec_firstCheck e
         \<or> spec_timeLeft e \<le> 0 \<or> activeClauses e \<le> 10"
  shows "estimatedReachableCount e = Inr (spec_estimate e)"
proof -
  note x = exit_total [OF assms(1)]
  show ?thesis
  proof (cases "spec_elapsed e < spec_firstCheck e \<or> spec_timeLeft e \<le> 0 \<or> activeClauses e \<le> 10")
    case True
    then show ?thesis using x
      by (auto simp: estimatedReachableCount_def bindE_def spec_estimate_def)
  next
    case False
    then have d: "spec_elapsed e \<noteq> 0" using assms(2) by blast
    from False have "0 < activeClauses e * spec_timeLeft e" by simp
    moreover have "llong_range (activeClauses e * spec_timeLeft e)"
      using assms(1) by (simp add: no_overflow_def)
    ultimately have "llong_div (activeClauses e * spec_timeLeft e) (spec_elapsed e)
        = Inr (trunc_div (activeClauses e * spec_timeLeft e) (spec_elapsed e))"
      using d by (intro llong_div_pos)
    then show ?thesis using x False
      by (auto simp: estimatedReachableCount_def bindE_def spec_estimate_def spec_quotient_def)
  qed
qed

text \<open>
  C2, as amended. A result of the call is the estimate of the specification: -1 when the
  elapsed time is below \<open>firstCheck\<close>, else -1 when \<open>timeLeft \<le> 0\<close> or at most 10 clauses
  were activated, else the quotient \<open>processed * timeLeft / elapsed\<close>. When no signed
  computation overflows the call has that result in the first two cases, and in the third
  when the elapsed time is not 0. The result does not exceed the quotient when \<open>timeLeft\<close>
  and the elapsed time are positive (and the count of clauses is not negative).
\<close>

theorem estimatedReachableCount_spec:
  "(\<forall>r. estimatedReachableCount e = Inr r \<longrightarrow> r = spec_estimate e)
   \<and> (no_overflow e \<longrightarrow>
        (spec_elapsed e < spec_firstCheck e \<longrightarrow> estimatedReachableCount e = Inr (- 1)) \<and>
        (\<not> spec_elapsed e < spec_firstCheck e \<and> (spec_timeLeft e \<le> 0 \<or> activeClauses e \<le> 10)
           \<longrightarrow> estimatedReachableCount e = Inr (- 1)) \<and>
        (\<not> spec_elapsed e < spec_firstCheck e \<and> \<not> (spec_timeLeft e \<le> 0 \<or> activeClauses e \<le> 10)
           \<and> spec_elapsed e \<noteq> 0
           \<longrightarrow> estimatedReachableCount e = Inr (spec_quotient e)))
   \<and> (\<forall>r. estimatedReachableCount e = Inr r \<and> 0 < spec_timeLeft e \<and> 0 < spec_elapsed e
           \<and> 0 \<le> activeClauses e \<longrightarrow> r \<le> spec_quotient e)"
proof (intro conjI allI impI)
  fix r assume "estimatedReachableCount e = Inr r"
  then show "r = spec_estimate e" by (rule erc_Inr)
next
  assume "no_overflow e" "spec_elapsed e < spec_firstCheck e"
  then show "estimatedReachableCount e = Inr (- 1)"
    using erc_total [of e] by (simp add: spec_estimate_def)
next
  assume "no_overflow e"
    "\<not> spec_elapsed e < spec_firstCheck e \<and> (spec_timeLeft e \<le> 0 \<or> activeClauses e \<le> 10)"
  then show "estimatedReachableCount e = Inr (- 1)"
    using erc_total [of e] by (auto simp: spec_estimate_def)
next
  assume "no_overflow e"
    "\<not> spec_elapsed e < spec_firstCheck e \<and> \<not> (spec_timeLeft e \<le> 0 \<or> activeClauses e \<le> 10)
       \<and> spec_elapsed e \<noteq> 0"
  then show "estimatedReachableCount e = Inr (spec_quotient e)"
    using erc_total [of e] by (auto simp: spec_estimate_def)
next
  fix r
  assume a: "estimatedReachableCount e = Inr r \<and> 0 < spec_timeLeft e \<and> 0 < spec_elapsed e
           \<and> 0 \<le> activeClauses e"
  then have r: "r = spec_estimate e" by (simp add: erc_Inr)
  have "0 \<le> spec_quotient e"
    unfolding spec_quotient_def using a by (intro trunc_div_nonneg) simp_all
  then show "r \<le> spec_quotient e"
    unfolding r spec_estimate_def by simp
qed

theorem estimatedReachableCount_spec_witness:
  "no_overflow env_S6 \<and> estimatedReachableCount env_S6 = Inr 1000 \<and> spec_quotient env_S6 = 1000"
  using estimatedReachableCount_spec [of env_S6]
  by (simp add: env_S6_def no_overflow_def int_range_def llong_range_def spec_elapsed_def
      spec_firstCheck_def spec_timeLeft_def spec_quotient_def trunc_div_def)

text \<open>
  C2 as stated fails in its last part: in a run without time limit \<open>timeLeft\<close> is negative,
  the call returns -1, and the quotient is -1000.
\<close>

theorem estimatedReachableCount_exceeds_quotient:
  "estimatedReachableCount env_no_time_limit = Inr (- 1)
   \<and> spec_quotient env_no_time_limit = - 1000
   \<and> \<not> (- 1 \<le> spec_quotient env_no_time_limit)"
proof -
  have 1: "estimatedReachableCount env_no_time_limit = Inr (- 1)"
    by (simp add: env_no_time_limit_def estimatedReachableCount_def
        estimatedReachableCount_exit_def bindE_def as_int_def int_range_def Let_def)
  have 2: "spec_quotient env_no_time_limit = - 1000"
    by (simp add: env_no_time_limit_def spec_quotient_def spec_timeLeft_def spec_elapsed_def
        trunc_div_def)
  from 1 2 show ?thesis by simp
qed

text \<open>
  C10. The call reaches the final division only with a divisor that is the elapsed time and
  is at least \<open>firstCheck\<close>: with \<open>firstCheck \<ge> 1\<close> the divisor is positive and the call
  does not divide by zero. With \<open>firstCheck = 0\<close>, no elapsed time, more than 10 activated
  clauses and a positive \<open>timeLeft\<close>, the call reaches the division with divisor 0.
\<close>

theorem estimatedReachableCount_division_guard:
  "(\<forall>n d. estimatedReachableCount_exit e = Inr (ReturnQuotient n d) \<longrightarrow>
        d = spec_elapsed e \<and> spec_firstCheck e \<le> d \<and> (1 \<le> spec_firstCheck e \<longrightarrow> 0 < d))
   \<and> (1 \<le> spec_firstCheck e \<longrightarrow> estimatedReachableCount e \<noteq> Inl DivisionByZero)
   \<and> (no_overflow e \<and> spec_firstCheck e = 0 \<and> spec_elapsed e = 0 \<and> 10 < activeClauses e
        \<and> 0 < spec_timeLeft e \<longrightarrow>
        estimatedReachableCount_exit e = Inr (ReturnQuotient (activeClauses e * spec_timeLeft e) 0)
        \<and> estimatedReachableCount e = Inl DivisionByZero)"
proof -
  have a: "d = spec_elapsed e \<and> spec_firstCheck e \<le> d \<and> (1 \<le> spec_firstCheck e \<longrightarrow> 0 < d)"
    if "estimatedReachableCount_exit e = Inr (ReturnQuotient n d)" for n d
    using exit_Inr [OF that] by (auto split: if_splits)
  have b: "estimatedReachableCount e \<noteq> Inl DivisionByZero" if f: "1 \<le> spec_firstCheck e"
  proof
    assume z: "estimatedReachableCount e = Inl DivisionByZero"
    show False
    proof (cases "estimatedReachableCount_exit e")
      case (Inl err)
      then have "err = DivisionByZero" using z by (simp add: estimatedReachableCount_def bindE_def)
      then show False using Inl
        by (auto simp: estimatedReachableCount_exit_def bindE_def as_int_def as_llong_def Let_def
            split: if_splits sum.splits)
    next
      case (Inr x)
      show False
      proof (cases x)
        case ReturnMinusOne
        then show False using z Inr by (simp add: estimatedReachableCount_def bindE_def)
      next
        case (ReturnQuotient n d)
        then have "0 < d" using a [of n d] Inr f by simp
        then show False using z Inr ReturnQuotient
          by (simp add: estimatedReachableCount_def bindE_def llong_div_def as_llong_def
              split: if_splits)
      qed
    qed
  qed
  have c: "estimatedReachableCount_exit e = Inr (ReturnQuotient (activeClauses e * spec_timeLeft e) 0)
        \<and> estimatedReachableCount e = Inl DivisionByZero"
    if "no_overflow e \<and> spec_firstCheck e = 0 \<and> spec_elapsed e = 0 \<and> 10 < activeClauses e
        \<and> 0 < spec_timeLeft e"
    using that exit_total [of e]
    by (simp add: estimatedReachableCount_def bindE_def llong_div_def)
  from a b c show ?thesis by blast
qed

theorem estimatedReachableCount_division_guard_witness:
  "estimatedReachableCount_exit env_at_start = Inr (ReturnQuotient 11000 0)
   \<and> estimatedReachableCount env_at_start = Inl DivisionByZero
   \<and> estimatedReachableCount env_S6 \<noteq> Inl DivisionByZero"
  using estimatedReachableCount_division_guard [of env_at_start]
    estimatedReachableCount_division_guard [of env_S6]
  by (simp add: env_at_start_def env_S6_def no_overflow_def int_range_def llong_range_def
      spec_elapsed_def spec_firstCheck_def spec_timeLeft_def)

section \<open>Properties of Kernel/Rebalancing/Inverters.cpp\<close>

lemma unat_one_minus:
  fixes i :: "32 word"
  assumes "unat i < 2"
  shows "unat (1 - i) = 1 - unat i"
proof -
  from assms have "unat i = 0 \<or> unat i = 1" by arith
  then have "i = 0 \<or> i = 1" by (auto simp: word_unat_eq_iff)
  then show ?thesis by auto
qed

lemma binary_other:
  assumes "wf_context sg ctxt" "arity (getFunction sg (functor_of (topTerm ctxt))) = 2"
  shows "Term_nth (topTerm ctxt) (unat (1 - topIdx ctxt))
         = Inr (args (topTerm ctxt) ! (1 - unat (topIdx ctxt)))"
proof -
  from assms have l: "length (args (topTerm ctxt)) = 2" and i: "unat (topIdx ctxt) < 2"
    by (simp_all add: wf_context_def)
  show ?thesis using l unat_one_minus [OF i] by (simp add: Term_nth_def)
qed

lemma interpreted_arity:
  assumes "wf_signature sg" "interp (getFunction sg f) = Some i"
  shows "wf_interpreted (getFunction sg f) i"
  using assms by (simp add: wf_signature_def)

lemma canInvertMulInt_eq:
  assumes "wf_context sg ctxt" "arity (getFunction sg (functor_of (topTerm ctxt))) = 2"
  shows "canInvertMulInt sg ctxt =
     Inr (tryInterpretConstantInt sg (args (topTerm ctxt) ! (1 - unat (topIdx ctxt))) = Some 1 \<or>
          tryInterpretConstantInt sg (args (topTerm ctxt) ! (1 - unat (topIdx ctxt))) = Some (- 1))"
  by (auto simp: canInvertMulInt_def tryInvertMulInt_def binary_other [OF assms] bindE_def
      split: option.splits)

text \<open>
  C3. Over a well-formed signature and context, \<open>canInvertTop\<close> returns true exactly in the
  cases of the table: the head is add or minus of Int, Rat or Real; it is mul over Rat or
  Real and the argument at position \<open>1 - topIdx\<close> is a constant of the sort other than zero;
  it is mul over Int and that argument is the constant 1 or -1; it is store and \<open>topIdx\<close> is
  2; or the head is a term-algebra constructor. For every other head it returns false.
\<close>

theorem canInvertTop_cases:
  assumes wf: "wf_signature sg" and wc: "wf_context sg ctxt"
  shows "canInvertTop sg ctxt = Inr (spec_canInvertTop sg ctxt)"
proof (cases "interp (getFunction sg (functor_of (topTerm ctxt)))")
  case None
  then show ?thesis
    by (simp add: canInvertTop_def spec_canInvertTop_def Let_def)
next
  case (Some i)
  note wi = interpreted_arity [OF wf Some]
  then have nc: "\<not> termAlgebraCons (getFunction sg (functor_of (topTerm ctxt)))"
    by (simp add: wf_interpreted_def)
  show ?thesis
  proof (cases i)
    case (mulI s)
    then have ar: "arity (getFunction sg (functor_of (topTerm ctxt))) = 2"
      using wi by (simp add: wf_interpreted_def)
    show ?thesis
      using Some mulI nc
      by (cases s)
        (auto simp: canInvertTop_def spec_canInvertTop_def Let_def binary_other [OF wc ar]
          canInvertMulInt_eq [OF wc ar] bindE_def nonZero_def split: option.splits)
  next
    case (addI s)
    then show ?thesis using Some nc
      by (cases s) (simp_all add: canInvertTop_def spec_canInvertTop_def Let_def)
  next
    case (minusI s)
    then show ?thesis using Some nc
      by (cases s) (simp_all add: canInvertTop_def spec_canInvertTop_def Let_def)
  next
    case (divI s)
    then show ?thesis using Some nc
      by (simp_all add: canInvertTop_def spec_canInvertTop_def Let_def)
  next
    case ARRAY_SELECT
    then show ?thesis using Some nc
      by (simp_all add: canInvertTop_def spec_canInvertTop_def Let_def)
  next
    case ARRAY_STORE
    then show ?thesis using Some nc
      by (simp_all add: canInvertTop_def spec_canInvertTop_def Let_def)
  next
    case (OTHER_INTERPRETATION n)
    then show ?thesis using Some nc
      by (simp_all add: canInvertTop_def spec_canInvertTop_def Let_def)
  qed
qed

lemma doInvertMulInt_total:
  assumes "canInvertMulInt sg ctxt = Inr True"
  shows "\<exists>out. tryInvertMulInt sg ctxt = Inr (Some out) \<and> doInvertMulInt sg ctxt = Inr out"
  using assms
  by (auto simp: canInvertMulInt_def doInvertMulInt_def bindE_def split: sum.splits)

lemma invertTop_defined:
  assumes wf: "wf_signature sg" and wc: "wf_context sg ctxt"
    and can: "canInvertTop sg ctxt = Inr True"
  shows "\<exists>r. invertTop sg ctxt = Inr r"
proof (cases "interp (getFunction sg (functor_of (topTerm ctxt)))")
  case None
  then have c: "termAlgebraCons (getFunction sg (functor_of (topTerm ctxt)))"
    using can by (simp add: canInvertTop_def Let_def split: if_splits)
  then have "wf_constructor sg (functor_of (topTerm ctxt))"
    using wf by (simp add: wf_signature_def)
  then have "unat (topIdx ctxt) < length (destructorFunctors (getFunction sg (functor_of (topTerm ctxt))))"
    using wc by (simp add: wf_constructor_def wf_context_def Let_def)
  then show ?thesis using None c can
    by (simp add: invertTop_def bindE_def Let_def destructorFunctor_def)
next
  case (Some i)
  note wi = interpreted_arity [OF wf Some]
  show ?thesis
  proof (cases i)
    case (mulI s)
    then have ar: "arity (getFunction sg (functor_of (topTerm ctxt))) = 2"
      using wi by (simp add: wf_interpreted_def)
    show ?thesis
    proof (cases s)
      case IntegerConstantType
      then have "canInvertMulInt sg ctxt = Inr True"
        using can Some mulI by (simp add: canInvertTop_def Let_def)
      from doInvertMulInt_total [OF this] show ?thesis
        using can Some mulI IntegerConstantType by (auto simp: invertTop_def bindE_def Let_def)
    next
      case RationalConstantType
      then show ?thesis using can Some mulI
        by (simp add: invertTop_def bindE_def Let_def binary_other [OF wc ar])
    next
      case RealConstantType
      then show ?thesis using can Some mulI
        by (simp add: invertTop_def bindE_def Let_def binary_other [OF wc ar])
    qed
  next
    case (addI s)
    then have ar: "arity (getFunction sg (functor_of (topTerm ctxt))) = 2"
      using wi by (simp add: wf_interpreted_def)
    show ?thesis using can Some addI
      by (simp add: invertTop_def bindE_def Let_def binary_other [OF wc ar])
  next
    case (minusI s)
    then show ?thesis using can Some
      by (simp add: invertTop_def bindE_def Let_def)
  next
    case (divI s)
    then show ?thesis using can Some
      by (simp add: canInvertTop_def Let_def)
  next
    case ARRAY_SELECT
    then show ?thesis using can Some
      by (simp add: canInvertTop_def Let_def)
  next
    case ARRAY_STORE
    then have "length (args (topTerm ctxt)) = 3"
      and "length (fst (fnType (getFunction sg (functor_of (topTerm ctxt))))) = 3"
      using wi wc by (simp_all add: wf_interpreted_def wf_context_def)
    moreover have "topIdx ctxt = 2"
      using can Some ARRAY_STORE by (simp add: canInvertTop_def Let_def)
    ultimately show ?thesis using can Some ARRAY_STORE
      by (auto simp: invertTop_def bindE_def Let_def Term_nth_def OperatorType_arg_def)
  next
    case (OTHER_INTERPRETATION n)
    then show ?thesis using can Some
      by (simp add: canInvertTop_def Let_def)
  qed
qed

lemma those_map_Some:
  assumes "those (map g ts) = Some vs"
  shows "length vs = length ts \<and> (\<forall>k < length ts. g (ts ! k) = Some (vs ! k))"
  using assms
proof (induction ts arbitrary: vs)
  case Nil
  then show ?case by simp
next
  case (Cons t ts)
  then obtain v vs' where v: "g t = Some v" and vs': "those (map g ts) = Some vs'" and e: "vs = v # vs'"
    by (auto split: option.splits)
  from Cons.IH [OF vs'] show ?case using v e by (auto simp: nth_Cons split: nat.splits)
qed

lemma eval_App_Some:
  assumes "eval sg \<rho> J (App f ts) = Some v"
  obtains vs where "length vs = length ts" "\<And>k. k < length ts \<Longrightarrow> eval sg \<rho> J (ts ! k) = Some (vs ! k)"
    "those (map (eval sg \<rho> J) ts) = Some vs" "symbol_apply sg J f vs = Some v"
proof -
  from assms obtain vs where t: "those (map (eval sg \<rho> J) ts) = Some vs"
    and s: "symbol_apply sg J f vs = Some v"
    by (auto split: option.splits)
  from those_map_Some [OF t] that [of vs] t s show thesis by blast
qed

lemma symbol_apply_interpreted:
  assumes "interp (getFunction sg f) = Some i"
  shows "symbol_apply sg J f vs = interp_apply i vs"
  using assms by (simp add: symbol_apply_def Let_def)

lemma eval_number_add:
  assumes "wf_signature sg"
  shows "eval sg \<rho> J (number_add sg s a b) =
     (case eval sg \<rho> J a of None \<Rightarrow> None
      | Some x \<Rightarrow> (case eval sg \<rho> J b of None \<Rightarrow> None | Some y \<Rightarrow> val_add s x y))"
proof -
  have "interp (getFunction sg (getInterpretingSymbol sg (addI s))) = Some (addI s)"
    using assms by (simp add: wf_signature_def)
  then show ?thesis
    by (simp add: number_add_def symbol_apply_interpreted interp_apply_def split: option.splits)
qed

lemma eval_number_mul:
  assumes "wf_signature sg"
  shows "eval sg \<rho> J (number_mul sg s a b) =
     (case eval sg \<rho> J a of None \<Rightarrow> None
      | Some x \<Rightarrow> (case eval sg \<rho> J b of None \<Rightarrow> None | Some y \<Rightarrow> val_mul s x y))"
proof -
  have "interp (getFunction sg (getInterpretingSymbol sg (mulI s))) = Some (mulI s)"
    using assms by (simp add: wf_signature_def)
  then show ?thesis
    by (simp add: number_mul_def symbol_apply_interpreted interp_apply_def split: option.splits)
qed

lemma eval_number_div:
  assumes "wf_signature sg"
  shows "eval sg \<rho> J (number_div sg s a b) =
     (case eval sg \<rho> J a of None \<Rightarrow> None
      | Some x \<Rightarrow> (case eval sg \<rho> J b of None \<Rightarrow> None | Some y \<Rightarrow> val_div s x y))"
proof -
  have "interp (getFunction sg (getInterpretingSymbol sg (divI s))) = Some (divI s)"
    using assms by (simp add: wf_signature_def)
  then show ?thesis
    by (simp add: number_div_def symbol_apply_interpreted interp_apply_def split: option.splits)
qed

lemma eval_number_minus:
  assumes "wf_signature sg"
  shows "eval sg \<rho> J (number_minus sg s a) =
     (case eval sg \<rho> J a of None \<Rightarrow> None | Some x \<Rightarrow> val_minus s x)"
proof -
  have "interp (getFunction sg (getInterpretingSymbol sg (minusI s))) = Some (minusI s)"
    using assms by (simp add: wf_signature_def)
  then show ?thesis
    by (simp add: number_minus_def symbol_apply_interpreted interp_apply_def split: option.splits)
qed

lemma eval_constant:
  assumes "wf_signature sg" "tryInterpretConstant sg t = Some c"
  shows "eval sg \<rho> J t = Some (constant_val c)"
proof -
  from assms(2) obtain f where t: "t = App f []" and c: "constantValue (getFunction sg f) = Some c"
    by (auto simp: tryInterpretConstant_def split: TermList.splits if_splits)
  then have "interp (getFunction sg f) = None"
    using assms(1) by (simp add: wf_signature_def)
  then show ?thesis using t c by (simp add: symbol_apply_def)
qed

lemma eval_number_one:
  assumes "wf_signature sg"
  shows "eval sg \<rho> J (number_one sg s) = Some (constant_val (oneC s))"
proof -
  have "tryInterpretConstant sg (number_one sg s) = Some (oneC s)"
    using assms by (simp add: tryInterpretConstant_def number_one_def wf_signature_def)
  then show ?thesis using assms by (rule eval_constant [rotated])
qed

lemma binary_context:
  assumes "wf_context sg ctxt" "arity (getFunction sg (functor_of (topTerm ctxt))) = 2"
  obtains a b where "args (topTerm ctxt) = [a, b]"
    and "topIdx ctxt = 0 \<or> topIdx ctxt = 1"
proof -
  from assms have l: "length (args (topTerm ctxt)) = 2" and i: "unat (topIdx ctxt) < 2"
    by (simp_all add: wf_context_def)
  from l obtain a b where ab: "args (topTerm ctxt) = [a, b]"
    by (cases "args (topTerm ctxt)"; cases "tl (args (topTerm ctxt))") auto
  from i have "unat (topIdx ctxt) = 0 \<or> unat (topIdx ctxt) = 1" by arith
  then have "topIdx ctxt = 0 \<or> topIdx ctxt = 1" by (auto simp: word_unat_eq_iff)
  with ab that show thesis by blast
qed

lemma invertTop_can:
  assumes "invertTop sg ctxt = Inr r"
  shows "canInvertTop sg ctxt = Inr True"
  using assms by (auto simp: invertTop_def bindE_def split: sum.splits if_splits)

lemma val_add_cancel:
  assumes "val_add s x y = Some v"
  shows "(case val_minus s y of None \<Rightarrow> None | Some m \<Rightarrow> val_add s v m) = Some x"
    and "(case val_minus s x of None \<Rightarrow> None | Some m \<Rightarrow> val_add s v m) = Some y"
  using assms
  by (auto simp: val_add_def val_minus_def split: numsort.splits val.splits)

lemma val_minus_cancel:
  assumes "val_minus s x = Some v"
  shows "val_minus s v = Some x"
  using assms
  by (auto simp: val_minus_def split: numsort.splits val.splits)

lemma invert_add_sound:
  assumes wf: "wf_signature sg" and wc: "wf_context sg ctxt"
    and hd: "interp (getFunction sg (functor_of (topTerm ctxt))) = Some (addI s)"
    and inv: "invertTop sg ctxt = Inr r"
    and et: "eval sg \<rho> J (TermList_of (topTerm ctxt)) = Some v"
    and ew: "eval sg \<rho> J (toWrap ctxt) = Some v"
  shows "eval sg \<rho> J r = eval sg \<rho> J (args (topTerm ctxt) ! unat (topIdx ctxt))"
proof -
  have ar: "arity (getFunction sg (functor_of (topTerm ctxt))) = 2"
    using interpreted_arity [OF wf hd] by (simp add: wf_interpreted_def)
  from binary_context [OF wc ar] obtain a b where ab: "args (topTerm ctxt) = [a, b]"
    and i: "topIdx ctxt = 0 \<or> topIdx ctxt = 1" by blast
  from et ab obtain x y where x: "eval sg \<rho> J a = Some x" and y: "eval sg \<rho> J b = Some y"
    and v: "val_add s x y = Some v"
    using hd
    by (auto simp: TermList_of_def symbol_apply_interpreted interp_apply_def split: option.splits)
  have r: "r = number_add sg s (toWrap ctxt) (number_minus sg s (args (topTerm ctxt) ! (1 - unat (topIdx ctxt))))"
    using inv invertTop_can [OF inv] hd binary_other [OF wc ar]
    by (simp add: invertTop_def bindE_def Let_def)
  from i show ?thesis
  proof
    assume "topIdx ctxt = 0"
    then show ?thesis using r ab x y ew val_add_cancel(1) [OF v]
      by (simp add: eval_number_add [OF wf] eval_number_minus [OF wf])
  next
    assume "topIdx ctxt = 1"
    then show ?thesis using r ab x y ew val_add_cancel(2) [OF v]
      by (simp add: eval_number_add [OF wf] eval_number_minus [OF wf])
  qed
qed

lemma invert_minus_sound:
  assumes wf: "wf_signature sg" and wc: "wf_context sg ctxt"
    and hd: "interp (getFunction sg (functor_of (topTerm ctxt))) = Some (minusI s)"
    and inv: "invertTop sg ctxt = Inr r"
    and et: "eval sg \<rho> J (TermList_of (topTerm ctxt)) = Some v"
    and ew: "eval sg \<rho> J (toWrap ctxt) = Some v"
  shows "eval sg \<rho> J r = eval sg \<rho> J (args (topTerm ctxt) ! unat (topIdx ctxt))"
proof -
  have ar: "arity (getFunction sg (functor_of (topTerm ctxt))) = 1"
    using interpreted_arity [OF wf hd] by (simp add: wf_interpreted_def)
  with wc have l: "length (args (topTerm ctxt)) = 1" and i: "unat (topIdx ctxt) = 0"
    by (simp_all add: wf_context_def)
  from l obtain a where a: "args (topTerm ctxt) = [a]"
    by (cases "args (topTerm ctxt)") auto
  from et a obtain x where x: "eval sg \<rho> J a = Some x" and v: "val_minus s x = Some v"
    using hd
    by (auto simp: TermList_of_def symbol_apply_interpreted interp_apply_def split: option.splits)
  have r: "r = number_minus sg s (toWrap ctxt)"
    using inv invertTop_can [OF inv] hd
    by (simp add: invertTop_def bindE_def Let_def)
  show ?thesis using r a x i ew val_minus_cancel [OF v]
    by (simp add: eval_number_minus [OF wf])
qed

lemma tryInterpretConstantFrac_Some:
  assumes "tryInterpretConstantFrac sg s t = Some q"
  shows "(s = RationalConstantType \<and> tryInterpretConstant sg t = Some (RationalConstant q)) \<or>
         (s = RealConstantType \<and> tryInterpretConstant sg t = Some (RealConstant q))"
  using assms
  by (auto simp: tryInterpretConstantFrac_def split: option.splits Constant.splits if_splits)

lemma tryInterpretConstantInt_Some:
  assumes "tryInterpretConstantInt sg t = Some n"
  shows "tryInterpretConstant sg t = Some (IntegerConstant n)"
  using assms
  by (auto simp: tryInterpretConstantInt_def split: option.splits Constant.splits)

lemma eval_frac_constant:
  assumes "wf_signature sg" "tryInterpretConstantFrac sg s t = Some q"
  shows "eval sg \<rho> J t = Some (if s = RationalConstantType then RatV q else RealV (of_rat q))"
  using tryInterpretConstantFrac_Some [OF assms(2)] eval_constant [OF assms(1)]
  by (fastforce simp: constant_val_def)

lemma val_mul_cancel:
  fixes x y v :: "'f val"
  assumes "val_mul s x y = Some v" "q \<noteq> 0" "s \<noteq> IntegerConstantType"
  shows "y = (if s = RationalConstantType then RatV q else RealV (of_rat q)) \<Longrightarrow>
      (case val_div s (constant_val (oneC s)) y of None \<Rightarrow> None | Some d \<Rightarrow> val_mul s v d) = Some x"
    and "x = (if s = RationalConstantType then RatV q else RealV (of_rat q)) \<Longrightarrow>
      (case val_div s (constant_val (oneC s)) x of None \<Rightarrow> None | Some d \<Rightarrow> val_mul s v d) = Some y"
  using assms
  by (auto simp: val_mul_def val_div_def constant_val_def oneC_def
      split: numsort.splits val.splits if_splits)

lemma invert_mul_frac_sound:
  assumes wf: "wf_signature sg" and wc: "wf_context sg ctxt"
    and hd: "interp (getFunction sg (functor_of (topTerm ctxt))) = Some (mulI s)"
    and s: "s \<noteq> IntegerConstantType"
    and inv: "invertTop sg ctxt = Inr r"
    and et: "eval sg \<rho> J (TermList_of (topTerm ctxt)) = Some v"
    and ew: "eval sg \<rho> J (toWrap ctxt) = Some v"
  shows "eval sg \<rho> J r = eval sg \<rho> J (args (topTerm ctxt) ! unat (topIdx ctxt))"
proof -
  have ar: "arity (getFunction sg (functor_of (topTerm ctxt))) = 2"
    using interpreted_arity [OF wf hd] by (simp add: wf_interpreted_def)
  from binary_context [OF wc ar] obtain a b where ab: "args (topTerm ctxt) = [a, b]"
    and i: "topIdx ctxt = 0 \<or> topIdx ctxt = 1" by blast
  from et ab obtain x y where x: "eval sg \<rho> J a = Some x" and y: "eval sg \<rho> J b = Some y"
    and v: "val_mul s x y = Some v"
    using hd
    by (auto simp: TermList_of_def symbol_apply_interpreted interp_apply_def split: option.splits)
  let ?o = "args (topTerm ctxt) ! (1 - unat (topIdx ctxt))"
  have can: "canInvertTop sg ctxt = Inr True" by (rule invertTop_can [OF inv])
  then have "nonZero sg s ?o"
    using hd s binary_other [OF wc ar]
    by (cases s) (simp_all add: canInvertTop_def Let_def bindE_def)
  then obtain q where q: "tryInterpretConstantFrac sg s ?o = Some q" and q0: "q \<noteq> 0"
    by (auto simp: nonZero_def split: option.splits)
  note eo = eval_frac_constant [OF wf q, of \<rho> J]
  have r: "r = number_mul sg s (toWrap ctxt) (number_div sg s (number_one sg s) ?o)"
    using inv can hd s binary_other [OF wc ar]
    by (cases s) (simp_all add: invertTop_def bindE_def Let_def)
  from i show ?thesis
  proof
    assume i0: "topIdx ctxt = 0"
    then have "y = (if s = RationalConstantType then RatV q else RealV (of_rat q))"
      using eo ab y by simp
    from val_mul_cancel(1) [OF v q0 s this] show ?thesis
      using r ab x y ew i0
      by (simp add: eval_number_mul [OF wf] eval_number_div [OF wf] eval_number_one [OF wf])
  next
    assume i1: "topIdx ctxt = 1"
    then have "x = (if s = RationalConstantType then RatV q else RealV (of_rat q))"
      using eo ab x by simp
    from val_mul_cancel(2) [OF v q0 s this] show ?thesis
      using r ab x y ew i1
      by (simp add: eval_number_mul [OF wf] eval_number_div [OF wf] eval_number_one [OF wf])
  qed
qed

lemma val_mul_int_cancel:
  fixes x y v :: "'f val"
  assumes "val_mul IntegerConstantType x y = Some v"
  shows "y = IntV 1 \<Longrightarrow> v = x" and "x = IntV 1 \<Longrightarrow> v = y"
    and "y = IntV (- 1) \<Longrightarrow> val_mul IntegerConstantType y v = Some x"
    and "x = IntV (- 1) \<Longrightarrow> val_mul IntegerConstantType x v = Some y"
  using assms
  by (auto simp: val_mul_def split: val.splits)

lemma invert_mul_int_sound:
  assumes wf: "wf_signature sg" and wc: "wf_context sg ctxt"
    and hd: "interp (getFunction sg (functor_of (topTerm ctxt))) = Some (mulI IntegerConstantType)"
    and inv: "invertTop sg ctxt = Inr r"
    and et: "eval sg \<rho> J (TermList_of (topTerm ctxt)) = Some v"
    and ew: "eval sg \<rho> J (toWrap ctxt) = Some v"
  shows "eval sg \<rho> J r = eval sg \<rho> J (args (topTerm ctxt) ! unat (topIdx ctxt))"
proof -
  have ar: "arity (getFunction sg (functor_of (topTerm ctxt))) = 2"
    using interpreted_arity [OF wf hd] by (simp add: wf_interpreted_def)
  from binary_context [OF wc ar] obtain a b where ab: "args (topTerm ctxt) = [a, b]"
    and i: "topIdx ctxt = 0 \<or> topIdx ctxt = 1" by blast
  from et ab obtain x y where x: "eval sg \<rho> J a = Some x" and y: "eval sg \<rho> J b = Some y"
    and v: "val_mul IntegerConstantType x y = Some v"
    using hd
    by (auto simp: TermList_of_def symbol_apply_interpreted interp_apply_def split: option.splits)
  let ?o = "args (topTerm ctxt) ! (1 - unat (topIdx ctxt))"
  have can: "canInvertTop sg ctxt = Inr True" by (rule invertTop_can [OF inv])
  have d: "doInvertMulInt sg ctxt = Inr r"
    using inv can hd by (simp add: invertTop_def bindE_def Let_def)
  then consider (one) "tryInterpretConstantInt sg ?o = Some 1" "r = toWrap ctxt"
    | (mone) "tryInterpretConstantInt sg ?o = Some (- 1)"
        "r = number_mul sg IntegerConstantType ?o (toWrap ctxt)"
    by (auto simp: doInvertMulInt_def tryInvertMulInt_def bindE_def binary_other [OF wc ar]
        split: option.splits if_splits)
  then show ?thesis
  proof cases
    case one
    then have eo: "eval sg \<rho> J ?o = Some (IntV 1)"
      using eval_constant [OF wf tryInterpretConstantInt_Some] by (fastforce simp: constant_val_def)
    from i show ?thesis
    proof
      assume "topIdx ctxt = 0"
      then show ?thesis using eo ab x y ew one val_mul_int_cancel(1) [OF v] by simp
    next
      assume "topIdx ctxt = 1"
      then show ?thesis using eo ab x y ew one val_mul_int_cancel(2) [OF v] by simp
    qed
  next
    case mone
    then have eo: "eval sg \<rho> J ?o = Some (IntV (- 1))"
      using eval_constant [OF wf tryInterpretConstantInt_Some] by (fastforce simp: constant_val_def)
    from i show ?thesis
    proof
      assume "topIdx ctxt = 0"
      then show ?thesis using eo ab x y ew mone val_mul_int_cancel(3) [OF v]
        by (simp add: eval_number_mul [OF wf])
    next
      assume "topIdx ctxt = 1"
      then show ?thesis using eo ab x y ew mone val_mul_int_cancel(4) [OF v]
        by (simp add: eval_number_mul [OF wf])
    qed
  qed
qed

lemma invert_store_sound:
  assumes wf: "wf_signature sg" and wc: "wf_context sg ctxt"
    and hd: "interp (getFunction sg (functor_of (topTerm ctxt))) = Some ARRAY_STORE"
    and inv: "invertTop sg ctxt = Inr r"
    and et: "eval sg \<rho> J (TermList_of (topTerm ctxt)) = Some v"
    and ew: "eval sg \<rho> J (toWrap ctxt) = Some v"
  shows "eval sg \<rho> J r = eval sg \<rho> J (args (topTerm ctxt) ! unat (topIdx ctxt))"
proof -
  have can: "canInvertTop sg ctxt = Inr True" by (rule invertTop_can [OF inv])
  then have i: "topIdx ctxt = 2" using hd by (simp add: canInvertTop_def Let_def)
  have "length (args (topTerm ctxt)) = 3"
    using interpreted_arity [OF wf hd] wc by (simp add: wf_interpreted_def wf_context_def)
  then obtain a k x where akx: "args (topTerm ctxt) = [a, k, x]"
    by (cases "args (topTerm ctxt)"; cases "tl (args (topTerm ctxt))";
        cases "tl (tl (args (topTerm ctxt)))") auto
  from et akx obtain m n xv where a: "eval sg \<rho> J a = Some (ArrV m)"
    and k: "eval sg \<rho> J k = Some (IntV n)" and x: "eval sg \<rho> J x = Some xv"
    and v: "v = ArrV (m(n := xv))"
    using hd
    by (auto simp: TermList_of_def symbol_apply_interpreted interp_apply_def
        split: option.splits val.splits list.splits)
  from inv can hd i akx obtain ty where r: "r = App (getInterpretingSymbolT sg ARRAY_SELECT ty) [toWrap ctxt, k]"
    by (auto simp: invertTop_def bindE_def Let_def Term_nth_def split: sum.splits)
  have "interp (getFunction sg (getInterpretingSymbolT sg ARRAY_SELECT ty)) = Some ARRAY_SELECT"
    using wf by (cases ty) (simp add: wf_signature_def)
  then show ?thesis using r i akx k x ew v
    by (simp add: symbol_apply_interpreted interp_apply_def)
qed

lemma invert_constructor_sound:
  assumes wf: "wf_signature sg" and wc: "wf_context sg ctxt"
    and hd: "interp (getFunction sg (functor_of (topTerm ctxt))) = None"
    and inv: "invertTop sg ctxt = Inr r"
    and et: "eval sg \<rho> J (TermList_of (topTerm ctxt)) = Some v"
    and ew: "eval sg \<rho> J (toWrap ctxt) = Some v"
  shows "eval sg \<rho> J r = eval sg \<rho> J (args (topTerm ctxt) ! unat (topIdx ctxt))"
proof -
  let ?f = "functor_of (topTerm ctxt)"
  let ?i = "unat (topIdx ctxt)"
  have can: "canInvertTop sg ctxt = Inr True" by (rule invertTop_can [OF inv])
  then have c: "termAlgebraCons (getFunction sg ?f)"
    using hd by (simp add: canInvertTop_def Let_def split: if_splits)
  then have wcons: "wf_constructor sg ?f" using wf by (simp add: wf_signature_def)
  have i: "?i < arity (getFunction sg ?f)" using wc by (simp add: wf_context_def)
  from wcons i have nc: "constantValue (getFunction sg ?f) = None"
    and ld: "?i < length (destructorFunctors (getFunction sg ?f))"
    and d: "interp (getFunction sg (destructorFunctors (getFunction sg ?f) ! ?i)) = None"
      "constantValue (getFunction sg (destructorFunctors (getFunction sg ?f) ! ?i)) = None"
      "\<not> termAlgebraCons (getFunction sg (destructorFunctors (getFunction sg ?f) ! ?i))"
      "termAlgebraDest (getFunction sg (destructorFunctors (getFunction sg ?f) ! ?i)) = Some (?f, ?i)"
    by (simp_all add: wf_constructor_def Let_def)
  from et obtain vs where l: "length vs = length (args (topTerm ctxt))"
    and k: "\<And>k. k < length (args (topTerm ctxt)) \<Longrightarrow> eval sg \<rho> J (args (topTerm ctxt) ! k) = Some (vs ! k)"
    and sa: "symbol_apply sg J ?f vs = Some v"
    unfolding TermList_of_def by (elim eval_App_Some) blast
  have v: "v = DataV ?f vs" using sa hd nc c by (simp add: symbol_apply_def)
  have r: "r = App (destructorFunctors (getFunction sg ?f) ! ?i) [toWrap ctxt]"
    using inv can hd c ld by (simp add: invertTop_def bindE_def Let_def destructorFunctor_def)
  have il: "?i < length vs" using l wc by (simp add: wf_context_def)
  have "eval sg \<rho> J r = Some (vs ! ?i)"
    using r ew v d il by (simp add: symbol_apply_def)
  then show ?thesis using k [of ?i] il l by simp
qed

lemma invertTop_solution:
  assumes wf: "wf_signature sg" and wc: "wf_context sg ctxt"
    and inv: "invertTop sg ctxt = Inr r"
    and et: "eval sg \<rho> J (TermList_of (topTerm ctxt)) = Some v"
    and ew: "eval sg \<rho> J (toWrap ctxt) = Some v"
  shows "eval sg \<rho> J r = eval sg \<rho> J (args (topTerm ctxt) ! unat (topIdx ctxt))"
proof (cases "interp (getFunction sg (functor_of (topTerm ctxt)))")
  case None
  then show ?thesis by (rule invert_constructor_sound [OF wf wc _ inv et ew])
next
  case (Some i)
  have can: "canInvertTop sg ctxt = Inr True" by (rule invertTop_can [OF inv])
  show ?thesis
  proof (cases i)
    case (addI s)
    then show ?thesis using invert_add_sound [OF wf wc _ inv et ew] Some by simp
  next
    case (minusI s)
    then show ?thesis using invert_minus_sound [OF wf wc _ inv et ew] Some by simp
  next
    case (mulI s)
    then show ?thesis
      using invert_mul_frac_sound [OF wf wc _ _ inv et ew]
        invert_mul_int_sound [OF wf wc _ inv et ew] Some
      by (cases "s = IntegerConstantType") simp_all
  next
    case (divI s)
    then show ?thesis using can Some by (simp add: canInvertTop_def Let_def)
  next
    case ARRAY_SELECT
    then show ?thesis using can Some by (simp add: canInvertTop_def Let_def)
  next
    case ARRAY_STORE
    then show ?thesis using invert_store_sound [OF wf wc _ inv et ew] Some by simp
  next
    case (OTHER_INTERPRETATION n)
    then show ?thesis using can Some by (simp add: canInvertTop_def Let_def)
  qed
qed

lemma val_add_roundtrip:
  fixes x y v w :: "'f val"
  assumes "val_add s x y = Some v" "val_sort w = val_sort v"
  shows "\<exists>m u. val_minus s y = Some m \<and> val_add s w m = Some u \<and> val_add s u y = Some w"
    and "\<exists>m u. val_minus s x = Some m \<and> val_add s w m = Some u \<and> val_add s x u = Some w"
  using assms
  by (auto simp: val_add_def val_minus_def val_sort_def split: numsort.splits val.splits)

lemma val_minus_roundtrip:
  fixes x v w :: "'f val"
  assumes "val_minus s x = Some v" "val_sort w = val_sort v"
  shows "\<exists>u. val_minus s w = Some u \<and> val_minus s u = Some w"
  using assms
  by (auto simp: val_minus_def val_sort_def split: numsort.splits val.splits)

lemma val_mul_roundtrip:
  fixes x y v w :: "'f val"
  assumes "val_mul s x y = Some v" "val_sort w = val_sort v" "q \<noteq> 0" "s \<noteq> IntegerConstantType"
  shows "y = (if s = RationalConstantType then RatV q else RealV (of_rat q)) \<Longrightarrow>
      \<exists>d u. val_div s (constant_val (oneC s)) y = Some d \<and> val_mul s w d = Some u \<and>
        val_mul s u y = Some w"
    and "x = (if s = RationalConstantType then RatV q else RealV (of_rat q)) \<Longrightarrow>
      \<exists>d u. val_div s (constant_val (oneC s)) x = Some d \<and> val_mul s w d = Some u \<and>
        val_mul s x u = Some w"
  using assms
  by (auto simp: val_mul_def val_div_def val_sort_def constant_val_def oneC_def
      split: numsort.splits val.splits if_splits)

lemma val_mul_int_roundtrip:
  fixes x y v w :: "'f val"
  assumes "val_mul IntegerConstantType x y = Some v" "val_sort w = val_sort v"
  shows "y = IntV 1 \<Longrightarrow> val_mul IntegerConstantType w y = Some w"
    and "x = IntV 1 \<Longrightarrow> val_mul IntegerConstantType x w = Some w"
    and "y = IntV (- 1) \<Longrightarrow> \<exists>u. val_mul IntegerConstantType y w = Some u \<and>
           val_mul IntegerConstantType u y = Some w"
    and "x = IntV (- 1) \<Longrightarrow> \<exists>u. val_mul IntegerConstantType x w = Some u \<and>
           val_mul IntegerConstantType x u = Some w"
  using assms
  by (auto simp: val_mul_def val_sort_def split: val.splits)

lemma invert_add_roundtrip:
  assumes wf: "wf_signature sg" and wc: "wf_context sg ctxt"
    and hd: "interp (getFunction sg (functor_of (topTerm ctxt))) = Some (addI s)"
    and inv: "invertTop sg ctxt = Inr r"
    and et: "eval sg \<rho> J (TermList_of (topTerm ctxt)) = Some v"
    and ew: "eval sg \<rho> J (toWrap ctxt) = Some w"
    and st: "val_sort w = val_sort v"
  shows "eval sg \<rho> J (App (functor_of (topTerm ctxt))
           ((args (topTerm ctxt))[unat (topIdx ctxt) := r])) = Some w"
proof -
  have ar: "arity (getFunction sg (functor_of (topTerm ctxt))) = 2"
    using interpreted_arity [OF wf hd] by (simp add: wf_interpreted_def)
  from binary_context [OF wc ar] obtain a b where ab: "args (topTerm ctxt) = [a, b]"
    and i: "topIdx ctxt = 0 \<or> topIdx ctxt = 1" by blast
  from et ab obtain x y where x: "eval sg \<rho> J a = Some x" and y: "eval sg \<rho> J b = Some y"
    and v: "val_add s x y = Some v"
    using hd
    by (auto simp: TermList_of_def symbol_apply_interpreted interp_apply_def split: option.splits)
  have r: "r = number_add sg s (toWrap ctxt) (number_minus sg s (args (topTerm ctxt) ! (1 - unat (topIdx ctxt))))"
    using inv invertTop_can [OF inv] hd binary_other [OF wc ar]
    by (simp add: invertTop_def bindE_def Let_def)
  from i show ?thesis
  proof
    assume i0: "topIdx ctxt = 0"
    from val_add_roundtrip(1) [OF v st] obtain m u where
      "val_minus s y = Some m" "val_add s w m = Some u" "val_add s u y = Some w" by blast
    then show ?thesis using r ab x y ew i0 hd
      by (simp add: eval_number_add [OF wf] eval_number_minus [OF wf] symbol_apply_interpreted
          interp_apply_def)
  next
    assume i1: "topIdx ctxt = 1"
    from val_add_roundtrip(2) [OF v st] obtain m u where
      "val_minus s x = Some m" "val_add s w m = Some u" "val_add s x u = Some w" by blast
    then show ?thesis using r ab x y ew i1 hd
      by (simp add: eval_number_add [OF wf] eval_number_minus [OF wf] symbol_apply_interpreted
          interp_apply_def)
  qed
qed

lemma invert_minus_roundtrip:
  assumes wf: "wf_signature sg" and wc: "wf_context sg ctxt"
    and hd: "interp (getFunction sg (functor_of (topTerm ctxt))) = Some (minusI s)"
    and inv: "invertTop sg ctxt = Inr r"
    and et: "eval sg \<rho> J (TermList_of (topTerm ctxt)) = Some v"
    and ew: "eval sg \<rho> J (toWrap ctxt) = Some w"
    and st: "val_sort w = val_sort v"
  shows "eval sg \<rho> J (App (functor_of (topTerm ctxt))
           ((args (topTerm ctxt))[unat (topIdx ctxt) := r])) = Some w"
proof -
  have ar: "arity (getFunction sg (functor_of (topTerm ctxt))) = 1"
    using interpreted_arity [OF wf hd] by (simp add: wf_interpreted_def)
  with wc have l: "length (args (topTerm ctxt)) = 1" and i: "unat (topIdx ctxt) = 0"
    by (simp_all add: wf_context_def)
  from l obtain a where a: "args (topTerm ctxt) = [a]"
    by (cases "args (topTerm ctxt)") auto
  from et a obtain x where x: "eval sg \<rho> J a = Some x" and v: "val_minus s x = Some v"
    using hd
    by (auto simp: TermList_of_def symbol_apply_interpreted interp_apply_def split: option.splits)
  have r: "r = number_minus sg s (toWrap ctxt)"
    using inv invertTop_can [OF inv] hd
    by (simp add: invertTop_def bindE_def Let_def)
  from val_minus_roundtrip [OF v st] obtain u where
    "val_minus s w = Some u" "val_minus s u = Some w" by blast
  then show ?thesis using r a x i ew hd
    by (simp add: eval_number_minus [OF wf] symbol_apply_interpreted interp_apply_def)
qed

lemma invert_mul_frac_roundtrip:
  assumes wf: "wf_signature sg" and wc: "wf_context sg ctxt"
    and hd: "interp (getFunction sg (functor_of (topTerm ctxt))) = Some (mulI s)"
    and s: "s \<noteq> IntegerConstantType"
    and inv: "invertTop sg ctxt = Inr r"
    and et: "eval sg \<rho> J (TermList_of (topTerm ctxt)) = Some v"
    and ew: "eval sg \<rho> J (toWrap ctxt) = Some w"
    and st: "val_sort w = val_sort v"
  shows "eval sg \<rho> J (App (functor_of (topTerm ctxt))
           ((args (topTerm ctxt))[unat (topIdx ctxt) := r])) = Some w"
proof -
  have ar: "arity (getFunction sg (functor_of (topTerm ctxt))) = 2"
    using interpreted_arity [OF wf hd] by (simp add: wf_interpreted_def)
  from binary_context [OF wc ar] obtain a b where ab: "args (topTerm ctxt) = [a, b]"
    and i: "topIdx ctxt = 0 \<or> topIdx ctxt = 1" by blast
  from et ab obtain x y where x: "eval sg \<rho> J a = Some x" and y: "eval sg \<rho> J b = Some y"
    and v: "val_mul s x y = Some v"
    using hd
    by (auto simp: TermList_of_def symbol_apply_interpreted interp_apply_def split: option.splits)
  let ?o = "args (topTerm ctxt) ! (1 - unat (topIdx ctxt))"
  have can: "canInvertTop sg ctxt = Inr True" by (rule invertTop_can [OF inv])
  then have "nonZero sg s ?o"
    using hd s binary_other [OF wc ar]
    by (cases s) (simp_all add: canInvertTop_def Let_def bindE_def)
  then obtain q where q: "tryInterpretConstantFrac sg s ?o = Some q" and q0: "q \<noteq> 0"
    by (auto simp: nonZero_def split: option.splits)
  note eo = eval_frac_constant [OF wf q, of \<rho> J]
  have r: "r = number_mul sg s (toWrap ctxt) (number_div sg s (number_one sg s) ?o)"
    using inv can hd s binary_other [OF wc ar]
    by (cases s) (simp_all add: invertTop_def bindE_def Let_def)
  from i show ?thesis
  proof
    assume i0: "topIdx ctxt = 0"
    then have "y = (if s = RationalConstantType then RatV q else RealV (of_rat q))"
      using eo ab y by simp
    from val_mul_roundtrip(1) [OF v st q0 s this] obtain d u where
      "val_div s (constant_val (oneC s)) y = Some d" "val_mul s w d = Some u"
      "val_mul s u y = Some w" by blast
    then show ?thesis
      using r ab x y ew i0 hd
      by (simp add: eval_number_mul [OF wf] eval_number_div [OF wf] eval_number_one [OF wf]
          symbol_apply_interpreted interp_apply_def)
  next
    assume i1: "topIdx ctxt = 1"
    then have "x = (if s = RationalConstantType then RatV q else RealV (of_rat q))"
      using eo ab x by simp
    from val_mul_roundtrip(2) [OF v st q0 s this] obtain d u where
      "val_div s (constant_val (oneC s)) x = Some d" "val_mul s w d = Some u"
      "val_mul s x u = Some w" by blast
    then show ?thesis
      using r ab x y ew i1 hd
      by (simp add: eval_number_mul [OF wf] eval_number_div [OF wf] eval_number_one [OF wf]
          symbol_apply_interpreted interp_apply_def)
  qed
qed

lemma invert_mul_int_roundtrip:
  assumes wf: "wf_signature sg" and wc: "wf_context sg ctxt"
    and hd: "interp (getFunction sg (functor_of (topTerm ctxt))) = Some (mulI IntegerConstantType)"
    and inv: "invertTop sg ctxt = Inr r"
    and et: "eval sg \<rho> J (TermList_of (topTerm ctxt)) = Some v"
    and ew: "eval sg \<rho> J (toWrap ctxt) = Some w"
    and st: "val_sort w = val_sort v"
  shows "eval sg \<rho> J (App (functor_of (topTerm ctxt))
           ((args (topTerm ctxt))[unat (topIdx ctxt) := r])) = Some w"
proof -
  have ar: "arity (getFunction sg (functor_of (topTerm ctxt))) = 2"
    using interpreted_arity [OF wf hd] by (simp add: wf_interpreted_def)
  from binary_context [OF wc ar] obtain a b where ab: "args (topTerm ctxt) = [a, b]"
    and i: "topIdx ctxt = 0 \<or> topIdx ctxt = 1" by blast
  from et ab obtain x y where x: "eval sg \<rho> J a = Some x" and y: "eval sg \<rho> J b = Some y"
    and v: "val_mul IntegerConstantType x y = Some v"
    using hd
    by (auto simp: TermList_of_def symbol_apply_interpreted interp_apply_def split: option.splits)
  let ?o = "args (topTerm ctxt) ! (1 - unat (topIdx ctxt))"
  have can: "canInvertTop sg ctxt = Inr True" by (rule invertTop_can [OF inv])
  have d: "doInvertMulInt sg ctxt = Inr r"
    using inv can hd by (simp add: invertTop_def bindE_def Let_def)
  then consider (one) "tryInterpretConstantInt sg ?o = Some 1" "r = toWrap ctxt"
    | (mone) "tryInterpretConstantInt sg ?o = Some (- 1)"
        "r = number_mul sg IntegerConstantType ?o (toWrap ctxt)"
    by (auto simp: doInvertMulInt_def tryInvertMulInt_def bindE_def binary_other [OF wc ar]
        split: option.splits if_splits)
  then show ?thesis
  proof cases
    case one
    then have eo: "eval sg \<rho> J ?o = Some (IntV 1)"
      using eval_constant [OF wf tryInterpretConstantInt_Some] by (fastforce simp: constant_val_def)
    from i show ?thesis
    proof
      assume i0: "topIdx ctxt = 0"
      then have "y = IntV 1" using eo ab y by simp
      from val_mul_int_roundtrip(1) [OF v st this] show ?thesis
        using ab x y ew one i0 hd by (simp add: symbol_apply_interpreted interp_apply_def)
    next
      assume i1: "topIdx ctxt = 1"
      then have "x = IntV 1" using eo ab x by simp
      from val_mul_int_roundtrip(2) [OF v st this] show ?thesis
        using ab x y ew one i1 hd by (simp add: symbol_apply_interpreted interp_apply_def)
    qed
  next
    case mone
    then have eo: "eval sg \<rho> J ?o = Some (IntV (- 1))"
      using eval_constant [OF wf tryInterpretConstantInt_Some] by (fastforce simp: constant_val_def)
    from i show ?thesis
    proof
      assume i0: "topIdx ctxt = 0"
      then have "y = IntV (- 1)" using eo ab y by simp
      from val_mul_int_roundtrip(3) [OF v st this] obtain u where
        "val_mul IntegerConstantType y w = Some u" "val_mul IntegerConstantType u y = Some w"
        by blast
      then show ?thesis
        using ab x y ew mone i0 hd
        by (simp add: eval_number_mul [OF wf] symbol_apply_interpreted interp_apply_def)
    next
      assume i1: "topIdx ctxt = 1"
      then have "x = IntV (- 1)" using eo ab x by simp
      from val_mul_int_roundtrip(4) [OF v st this] obtain u where
        "val_mul IntegerConstantType x w = Some u" "val_mul IntegerConstantType x u = Some w"
        by blast
      then show ?thesis
        using ab x y ew mone i1 hd
        by (simp add: eval_number_mul [OF wf] symbol_apply_interpreted interp_apply_def)
    qed
  qed
qed

lemma invertTop_roundtrip:
  assumes wf: "wf_signature sg" and wc: "wf_context sg ctxt"
    and hd: "arithmetic_head (interp (getFunction sg (functor_of (topTerm ctxt))))"
    and inv: "invertTop sg ctxt = Inr r"
    and et: "eval sg \<rho> J (TermList_of (topTerm ctxt)) = Some v"
    and ew: "eval sg \<rho> J (toWrap ctxt) = Some w"
    and st: "val_sort w = val_sort v"
  shows "eval sg \<rho> J (App (functor_of (topTerm ctxt))
           ((args (topTerm ctxt))[unat (topIdx ctxt) := r])) = Some w"
proof -
  from hd consider
      (add) s where "interp (getFunction sg (functor_of (topTerm ctxt))) = Some (addI s)"
    | (minus) s where "interp (getFunction sg (functor_of (topTerm ctxt))) = Some (minusI s)"
    | (mulf) s where "interp (getFunction sg (functor_of (topTerm ctxt))) = Some (mulI s)"
        "s \<noteq> IntegerConstantType"
    | (muli) "interp (getFunction sg (functor_of (topTerm ctxt))) = Some (mulI IntegerConstantType)"
    by (auto simp: arithmetic_head_def split: option.splits Interpretation.splits)
  then show ?thesis
  proof cases
    case add
    then show ?thesis by (rule invert_add_roundtrip [OF wf wc _ inv et ew st])
  next
    case minus
    then show ?thesis by (rule invert_minus_roundtrip [OF wf wc _ inv et ew st])
  next
    case mulf
    then show ?thesis by (rule invert_mul_frac_roundtrip [OF wf wc _ _ inv et ew st])
  next
    case muli
    then show ?thesis by (rule invert_mul_int_roundtrip [OF wf wc _ inv et ew st])
  qed
qed

lemma wf_sg0: "wf_signature sg0"
  unfolding wf_signature_def
proof (intro conjI allI impI)
  fix f i assume "interp (getFunction sg0 f) = Some i"
  then show "wf_interpreted (getFunction sg0 f) i"
    by (cases f; cases i)
      (auto simp: sg0_def interpreted_symbol_def plain_symbol_def wf_interpreted_def)
next
  fix f assume "termAlgebraCons (getFunction sg0 f)"
  then have f: "f = PairCons"
    by (cases f) (auto simp: sg0_def interpreted_symbol_def plain_symbol_def)
  show "wf_constructor sg0 f" unfolding f
    by (auto simp: wf_constructor_def sg0_def plain_symbol_def Let_def less_Suc_eq numeral_2_eq_2)
next
  fix f assume "constantValue (getFunction sg0 f) \<noteq> None"
  then show "interp (getFunction sg0 f) = None"
    by (cases f) (auto simp: sg0_def interpreted_symbol_def plain_symbol_def)
qed (simp_all add: sg0_def interpreted_symbol_def plain_symbol_def)

lemma wf_ctx_mul: "wf_context sg0 ctx_mul"
  by (simp add: wf_context_def ctx_mul_def sg0_def interpreted_symbol_def plain_symbol_def)

lemma wf_ctx_store: "wf_context sg0 ctx_store"
  by (simp add: wf_context_def ctx_store_def sg0_def interpreted_symbol_def plain_symbol_def)

lemma can_ctx_mul: "canInvertTop sg0 ctx_mul = Inr True"
  by (simp add: canInvertTop_def ctx_mul_def sg0_def interpreted_symbol_def plain_symbol_def
      Let_def bindE_def Term_nth_def nonZero_def tryInterpretConstantFrac_def
      tryInterpretConstant_def)

lemma can_ctx_store: "canInvertTop sg0 ctx_store = Inr True"
  by (simp add: canInvertTop_def ctx_store_def sg0_def interpreted_symbol_def plain_symbol_def
      Let_def)

lemma inv_ctx_store:
  "invertTop sg0 ctx_store = Inr (App (InterpretedT ARRAY_SELECT ([0, 1], 2)) [Var 3, Var 1])"
  by (simp add: invertTop_def can_ctx_store bindE_def)
     (simp add: ctx_store_def sg0_def interpreted_symbol_def plain_symbol_def
      Let_def bindE_def Term_nth_def OperatorType_arg_def)

lemma inv_ctx_mul:
  "invertTop sg0 ctx_mul = Inr (App (Interpreted (mulI RationalConstantType))
     [Var 1, App (Interpreted (divI RationalConstantType))
        [App (Numeral (RationalConstant 1)) [], App (Numeral (RationalConstant 2)) []]])"
  by (simp add: invertTop_def can_ctx_mul bindE_def)
     (simp add: ctx_mul_def sg0_def interpreted_symbol_def plain_symbol_def
      Let_def bindE_def Term_nth_def number_mul_def number_div_def number_one_def oneC_def)

lemma eval_ctx_mul:
  "eval sg0 rho_mul J0 (TermList_of (topTerm ctx_mul)) = Some (RatV 6)"
  "eval sg0 rho_mul J0 (toWrap ctx_mul) = Some (RatV 6)"
  "eval sg0 rho_mul J0 (args (topTerm ctx_mul) ! unat (topIdx ctx_mul)) = Some (RatV 3)"
  by (simp_all add: ctx_mul_def TermList_of_def sg0_def interpreted_symbol_def plain_symbol_def
      symbol_apply_def interp_apply_def val_mul_def rho_mul_def constant_val_def)

text \<open>
  C4 as stated fails for store: with \<open>a\<close> the array that is 0 everywhere and \<open>s\<close> the array
  that is 1 everywhere, \<open>invertTop\<close> returns \<open>select(s, i)\<close>, and \<open>store(a, i, select(s, i))\<close>
  is 1 at \<open>i\<close> and 0 elsewhere, which is not \<open>s\<close>.
\<close>

theorem invertTop_store_no_roundtrip:
  "canInvertTop sg0 ctx_store = Inr True
   \<and> invertTop sg0 ctx_store = Inr (App (InterpretedT ARRAY_SELECT ([0, 1], 2)) [Var 3, Var 1])
   \<and> eval sg0 rho_store J0 (toWrap ctx_store) = Some (ArrV (\<lambda>k. IntV 1))
   \<and> eval sg0 rho_store J0 (App (functor_of (topTerm ctx_store))
        ((args (topTerm ctx_store))[unat (topIdx ctx_store) :=
           App (InterpretedT ARRAY_SELECT ([0, 1], 2)) [Var 3, Var 1]]))
      = Some (ArrV ((\<lambda>k. IntV 0)(0 := IntV 1)))
   \<and> ArrV ((\<lambda>k. IntV 0)(0 := IntV 1)) \<noteq> (ArrV (\<lambda>k. IntV 1) :: sym0 val)"
proof -
  have "((\<lambda>k. IntV 0)(0 := IntV 1)) (1::int) \<noteq> ((\<lambda>k. IntV 1) (1::int) :: sym0 val)" by simp
  then have ne: "(\<lambda>k::int. IntV 0 :: sym0 val)(0 := IntV 1) \<noteq> (\<lambda>k. IntV 1)"
    by (metis)
  have e1: "eval sg0 rho_store J0 (toWrap ctx_store) = Some (ArrV (\<lambda>k. IntV 1))"
    by (simp add: ctx_store_def rho_store_def)
  have e2: "eval sg0 rho_store J0 (App (functor_of (topTerm ctx_store))
        ((args (topTerm ctx_store))[unat (topIdx ctx_store) :=
           App (InterpretedT ARRAY_SELECT ([0, 1], 2)) [Var 3, Var 1]]))
      = Some (ArrV ((\<lambda>k. IntV 0)(0 := IntV 1)))"
    by (simp add: ctx_store_def sg0_def interpreted_symbol_def plain_symbol_def
      symbol_apply_def interp_apply_def rho_store_def)
  from ne e1 e2 can_ctx_store inv_ctx_store show ?thesis by simp
qed

lemma can_ctx_free: "canInvertTop sg0 ctx_free = Inr False"
  by (simp add: canInvertTop_def ctx_free_def sg0_def plain_symbol_def Let_def)

lemma wf_ctx_free: "wf_context sg0 ctx_free"
  by (simp add: wf_context_def ctx_free_def sg0_def plain_symbol_def)

theorem canInvertTop_cases_witness:
  "wf_signature sg0 \<and> wf_context sg0 ctx_mul \<and> wf_context sg0 ctx_free
   \<and> canInvertTop sg0 ctx_mul = Inr True \<and> spec_canInvertTop sg0 ctx_mul
   \<and> canInvertTop sg0 ctx_free = Inr False \<and> \<not> spec_canInvertTop sg0 ctx_free"
  using canInvertTop_cases [OF wf_sg0 wf_ctx_mul] canInvertTop_cases [OF wf_sg0 wf_ctx_free]
    wf_sg0 wf_ctx_mul wf_ctx_free can_ctx_mul can_ctx_free
  by simp

lemma wf_ctx_mul_int: "wf_context sg0 ctx_mul_int"
  by (simp add: wf_context_def ctx_mul_int_def sg0_def interpreted_symbol_def plain_symbol_def)

lemma try_ctx_mul_int:
  "tryInvertMulInt sg0 ctx_mul_int =
     Inr (Some (App (Interpreted (mulI IntegerConstantType))
       [App (Numeral (IntegerConstant (- 1))) [], Var 1]))"
  by (simp add: tryInvertMulInt_def ctx_mul_int_def sg0_def plain_symbol_def bindE_def
      Term_nth_def tryInterpretConstantInt_def tryInterpretConstant_def number_mul_def)

lemma can_ctx_mul_int: "canInvertTop sg0 ctx_mul_int = Inr True"
proof -
  have "canInvertMulInt sg0 ctx_mul_int = Inr True"
    by (simp add: canInvertMulInt_def try_ctx_mul_int bindE_def)
  then show ?thesis
    by (simp add: canInvertTop_def Let_def)
       (simp add: ctx_mul_int_def sg0_def interpreted_symbol_def plain_symbol_def)
qed

text \<open>
  C9. Over a well-formed signature and context, when \<open>canInvertTop\<close> is true \<open>invertTop\<close>
  returns a term: it fails no assertion and reads no argument out of range. For mul over
  Int the term is the one \<open>tryInvertMulInt\<close> produced, which \<open>canInvertMulInt\<close> and
  \<open>doInvertMulInt\<close> both call, so that the check in \<open>doInvertMulInt\<close> holds.
\<close>

theorem invertTop_total:
  assumes wf: "wf_signature sg" and wc: "wf_context sg ctxt"
    and can: "canInvertTop sg ctxt = Inr True"
  shows "(\<exists>r. invertTop sg ctxt = Inr r) \<and>
     (interp (getFunction sg (functor_of (topTerm ctxt))) = Some (mulI IntegerConstantType) \<longrightarrow>
        canInvertMulInt sg ctxt = Inr True \<and>
        (\<exists>out. tryInvertMulInt sg ctxt = Inr (Some out) \<and> doInvertMulInt sg ctxt = Inr out \<and>
           invertTop sg ctxt = Inr out))"
proof (intro conjI impI)
  show "\<exists>r. invertTop sg ctxt = Inr r" by (rule invertTop_defined [OF wf wc can])
next
  assume hd: "interp (getFunction sg (functor_of (topTerm ctxt))) = Some (mulI IntegerConstantType)"
  then show c: "canInvertMulInt sg ctxt = Inr True"
    using can by (simp add: canInvertTop_def Let_def)
  from doInvertMulInt_total [OF c] obtain out where
    o: "tryInvertMulInt sg ctxt = Inr (Some out)" "doInvertMulInt sg ctxt = Inr out" by blast
  then have "invertTop sg ctxt = Inr out"
    using can hd by (simp add: invertTop_def bindE_def Let_def)
  with o show "\<exists>out. tryInvertMulInt sg ctxt = Inr (Some out) \<and> doInvertMulInt sg ctxt = Inr out \<and>
           invertTop sg ctxt = Inr out" by blast
qed

theorem invertTop_total_witness:
  "wf_signature sg0 \<and> wf_context sg0 ctx_mul_int \<and> canInvertTop sg0 ctx_mul_int = Inr True
   \<and> invertTop sg0 ctx_mul_int =
       Inr (App (Interpreted (mulI IntegerConstantType))
         [App (Numeral (IntegerConstant (- 1))) [], Var 1])"
proof -
  have "interp (getFunction sg0 (functor_of (topTerm ctx_mul_int))) = Some (mulI IntegerConstantType)"
    by (simp add: ctx_mul_int_def sg0_def interpreted_symbol_def plain_symbol_def)
  with invertTop_total [OF wf_sg0 wf_ctx_mul_int can_ctx_mul_int] try_ctx_mul_int
  have "invertTop sg0 ctx_mul_int =
       Inr (App (Interpreted (mulI IntegerConstantType))
         [App (Numeral (IntegerConstant (- 1))) [], Var 1])"
    by auto
  then show ?thesis using wf_sg0 wf_ctx_mul_int can_ctx_mul_int by simp
qed

lemma invertTop_shape:
  assumes wf: "wf_signature sg" and wc: "wf_context sg ctxt"
    and inv: "invertTop sg ctxt = Inr r"
  shows "r = spec_invertTop sg ctxt"
proof (cases "interp (getFunction sg (functor_of (topTerm ctxt)))")
  case None
  then show ?thesis using inv invertTop_can [OF inv]
    by (auto simp: invertTop_def spec_invertTop_def bindE_def Let_def destructorFunctor_def
        split: if_splits)
next
  case (Some i)
  note wi = interpreted_arity [OF wf Some]
  have can: "canInvertTop sg ctxt = Inr True" by (rule invertTop_can [OF inv])
  show ?thesis
  proof (cases i)
    case (addI s)
    then have ar: "arity (getFunction sg (functor_of (topTerm ctxt))) = 2"
      using wi by (simp add: wf_interpreted_def)
    show ?thesis using inv can Some addI
      by (simp add: invertTop_def spec_invertTop_def bindE_def Let_def binary_other [OF wc ar])
  next
    case (minusI s)
    then show ?thesis using inv can Some
      by (simp add: invertTop_def spec_invertTop_def bindE_def Let_def)
  next
    case (mulI s)
    then have ar: "arity (getFunction sg (functor_of (topTerm ctxt))) = 2"
      using wi by (simp add: wf_interpreted_def)
    show ?thesis using inv can Some mulI
      by (cases s)
        (auto simp: invertTop_def spec_invertTop_def bindE_def Let_def binary_other [OF wc ar]
          doInvertMulInt_def tryInvertMulInt_def split: option.splits if_splits)
  next
    case (divI s)
    then show ?thesis using can Some by (simp add: canInvertTop_def Let_def)
  next
    case ARRAY_SELECT
    then show ?thesis using can Some by (simp add: canInvertTop_def Let_def)
  next
    case ARRAY_STORE
    then show ?thesis using inv can Some
      by (auto simp: invertTop_def spec_invertTop_def bindE_def Let_def Term_nth_def
          OperatorType_arg_def split: if_splits)
  next
    case (OTHER_INTERPRETATION n)
    then show ?thesis using can Some by (simp add: canInvertTop_def Let_def)
  qed
qed

text \<open>
  C4, as amended. Over a well-formed signature and context with \<open>canInvertTop\<close> true,
  \<open>invertTop\<close> returns the term of the specification (\<open>w + (-other)\<close>, \<open>-w\<close>, \<open>w * (1/other)\<close>,
  \<open>select(w, i)\<close>, the destructor applied to \<open>w\<close>), and this term is the only solution:
  under every valuation in which the top term evaluates to the value of \<open>w\<close>, the term
  evaluates to the value of the argument at position \<open>topIdx\<close>. For add, minus and mul the
  converse holds too: with \<open>w\<close> of the sort of the top term, substituting the returned term
  for that argument makes the top term evaluate to \<open>w\<close>.
\<close>

theorem invertTop_inverse:
  assumes wf: "wf_signature sg" and wc: "wf_context sg ctxt"
    and can: "canInvertTop sg ctxt = Inr True"
  shows "invertTop sg ctxt = Inr (spec_invertTop sg ctxt) \<and>
     (\<forall>\<rho> J v. eval sg \<rho> J (TermList_of (topTerm ctxt)) = Some v \<and>
              eval sg \<rho> J (toWrap ctxt) = Some v \<longrightarrow>
        eval sg \<rho> J (spec_invertTop sg ctxt)
          = eval sg \<rho> J (args (topTerm ctxt) ! unat (topIdx ctxt))) \<and>
     (arithmetic_head (interp (getFunction sg (functor_of (topTerm ctxt)))) \<longrightarrow>
        (\<forall>\<rho> J v w. eval sg \<rho> J (TermList_of (topTerm ctxt)) = Some v \<and>
              eval sg \<rho> J (toWrap ctxt) = Some w \<and> val_sort w = val_sort v \<longrightarrow>
           eval sg \<rho> J (App (functor_of (topTerm ctxt))
              ((args (topTerm ctxt))[unat (topIdx ctxt) := spec_invertTop sg ctxt])) = Some w))"
proof -
  from invertTop_defined [OF wf wc can] obtain r where r: "invertTop sg ctxt = Inr r" ..
  have s: "r = spec_invertTop sg ctxt" by (rule invertTop_shape [OF wf wc r])
  show ?thesis
    using r invertTop_solution [OF wf wc r] invertTop_roundtrip [OF wf wc _ r]
    unfolding s by blast
qed

theorem invertTop_inverse_witness:
  "wf_signature sg0 \<and> wf_context sg0 ctx_mul \<and> canInvertTop sg0 ctx_mul = Inr True
   \<and> eval sg0 rho_mul J0 (TermList_of (topTerm ctx_mul)) = Some (RatV 6)
   \<and> eval sg0 rho_mul J0 (toWrap ctx_mul) = Some (RatV 6)
   \<and> invertTop sg0 ctx_mul = Inr (spec_invertTop sg0 ctx_mul)
   \<and> eval sg0 rho_mul J0 (spec_invertTop sg0 ctx_mul) = Some (RatV 3)
   \<and> eval sg0 rho_mul J0 (App (functor_of (topTerm ctx_mul))
        ((args (topTerm ctx_mul))[unat (topIdx ctx_mul) := spec_invertTop sg0 ctx_mul]))
      = Some (RatV 6)"
proof -
  note t = invertTop_inverse [OF wf_sg0 wf_ctx_mul can_ctx_mul]
  have h: "arithmetic_head (interp (getFunction sg0 (functor_of (topTerm ctx_mul))))"
    by (simp add: arithmetic_head_def ctx_mul_def sg0_def interpreted_symbol_def plain_symbol_def)
  have a: "eval sg0 rho_mul J0 (spec_invertTop sg0 ctx_mul) = Some (RatV 3)"
    using t eval_ctx_mul by metis
  have b: "eval sg0 rho_mul J0 (App (functor_of (topTerm ctx_mul))
        ((args (topTerm ctx_mul))[unat (topIdx ctx_mul) := spec_invertTop sg0 ctx_mul]))
      = Some (RatV 6)"
    using t h eval_ctx_mul(1,2) by blast
  from t a b wf_sg0 wf_ctx_mul can_ctx_mul eval_ctx_mul show ?thesis by simp
qed

section \<open>Properties of LRS::doSaturation\<close>

lemma for_loop_step:
  assumes "for_body ops a = Some (Inr b)"
  shows "for_loop ops a = for_loop ops b"
  using assms by (subst for_loop.simps) simp

lemma for_loop_exit:
  assumes "for_body ops a = Some (Inl res)"
  shows "for_loop ops a = Some res"
  using assms by (subst for_loop.simps) simp

lemma for_loop_reach:
  assumes "rtranclp (\<lambda>a b. for_body ops a = Some (Inr b)) a b"
  shows "for_loop ops a = for_loop ops b"
  using assms by (induction rule: rtranclp_induct) (simp_all add: for_loop_step)

lemmas while_unprocessed_induct =
  while_unprocessed.raw_induct [rotated 1, consumes 1, case_names step]

lemmas for_loop_induct =
  for_loop.raw_induct [rotated 1, consumes 1, case_names step]

lemma while_unprocessed_Inr:
  assumes "while_unprocessed ops st = Some r"
  shows "\<forall>x. r = Inr x \<longrightarrow> unprocessed_isEmpty ops (alg x)"
  using assms
proof (induction ops st r rule: while_unprocessed_induct)
  case (step w ops st r)
  show ?case
  proof (cases "unprocessed_isEmpty ops (alg st)")
    case True
    then show ?thesis using step(2) by auto
  next
    case False
    then obtain x where x: "while_body ops st = Some x"
      and c: "(case x of Inl res \<Rightarrow> Some (Inl res) | Inr st' \<Rightarrow> w ops st') = Some r"
      using step(2) by (auto simp: bind_eq_Some_conv)
    show ?thesis
    proof (cases x)
      case (Inl res)
      then show ?thesis using c by auto
    next
      case (Inr y)
      then have "w ops y = Some r" using c by simp
      from step(1) [OF this] show ?thesis .
    qed
  qed
qed

lemma while_unprocessed_drained:
  assumes "while_unprocessed ops st = Some (Inr st')"
  shows "unprocessed_isEmpty ops (alg st')"
  using while_unprocessed_Inr [OF assms] by simp

text \<open>
  C1. When a run of \<open>doSaturation\<close> comes to an iteration of the \<open>for\<close> loop in which the
  \<open>while\<close> loop drains the unprocessed container, \<open>onAllProcessed\<close> leaves the clauses flushed
  and the passive container is empty, \<open>doSaturation\<close> returns \<open>SATISFIABLE\<close> if \<open>complete\<close> is
  true at that moment and \<open>REFUTATION_NOT_FOUND\<close> otherwise.
\<close>

theorem doSaturation_exhausted:
  assumes reach: "rtranclp (\<lambda>a b. for_body ops a = Some (Inr b))
        \<lparr>alg = s, cnt = n, complete = options_complete ops s, limited = False\<rparr> st"
    and new: "newClausesToUnprocessed ops (alg st) = Some s1"
    and drained: "while_unprocessed ops (st\<lparr>alg := s1\<rparr>) = Some (Inr st2)"
    and processed: "onAllProcessed ops (alg st2) = Some s3"
    and flushed: "clausesFlushed ops s3"
    and empty: "passive_isEmpty ops s3"
  shows "unprocessed_isEmpty ops (alg st2) \<and>
    doSaturation ops s n =
      Some (if complete st2 then SATISFIABLE else REFUTATION_NOT_FOUND, st2\<lparr>alg := s3\<rparr>)"
proof -
  have "for_body ops st =
      Some (Inl (if complete st2 then SATISFIABLE else REFUTATION_NOT_FOUND, st2\<lparr>alg := s3\<rparr>))"
    using new drained processed flushed empty by (simp add: for_body_def)
  then have "for_loop ops st =
      Some (if complete st2 then SATISFIABLE else REFUTATION_NOT_FOUND, st2\<lparr>alg := s3\<rparr>)"
    by (rule for_loop_exit)
  then show ?thesis
    using for_loop_reach [OF reach] while_unprocessed_drained [OF drained]
    by (simp add: doSaturation_def)
qed

lemma step_ok_refl: "step_ok st st"
  by (simp add: step_ok_def)

lemma step_ok_alg: "step_ok st (st\<lparr>alg := s\<rparr>)"
  by (simp add: step_ok_def limits_imply_incomplete_def)

lemma step_ok_trans: "step_ok a b \<Longrightarrow> step_ok b c \<Longrightarrow> step_ok a c"
  by (auto simp: step_ok_def)

lemma updateLimits_block_ok:
  assumes "updateLimits_block ops est st = Some st'"
  shows "step_ok st st'"
    and "weightLimited ops (alg st') \<or> ageLimited ops (alg st') \<Longrightarrow> \<not> complete st' \<and> limited st'"
proof -
  from assms obtain s where
    st': "st' = st\<lparr>alg := s,
        complete := (if complete st then \<not> weightLimited ops s \<and> \<not> ageLimited ops s
                     else complete st),
        limited := (limited st \<or> (weightLimited ops s \<or> ageLimited ops s))\<rparr>"
    by (auto simp: updateLimits_block_def Let_def bind_eq_Some_conv)
  show "step_ok st st'"
    by (simp add: st' step_ok_def limits_imply_incomplete_def)
  show "\<not> complete st' \<and> limited st'" if "weightLimited ops (alg st') \<or> ageLimited ops (alg st')"
    using that by (simp add: st')
qed

lemma check_limits_ok:
  assumes "check_limits ops st = Some x"
  shows "case x of Inl (r, st') \<Rightarrow> r = TIME_LIMIT \<and> step_ok st st' | Inr st' \<Rightarrow> step_ok st st'"
proof -
  have k: "step_ok st (st\<lparr>cnt := n\<rparr>)" for n
    by (simp add: step_ok_def limits_imply_incomplete_def)
  from assms consider "x = Inl (TIME_LIMIT, st)"
    | n where "x = Inr (st\<lparr>cnt := n\<rparr>)"
    | n est st' where "updateLimits_block ops est (st\<lparr>cnt := n\<rparr>) = Some st'" "x = Inr st'"
    unfolding check_limits_def
    by (auto split: if_splits prod.splits sum.splits)
  then show ?thesis
  proof cases
    case 1
    then show ?thesis by (simp add: step_ok_refl)
  next
    case 2
    then show ?thesis using k by simp
  next
    case 3
    then show ?thesis using step_ok_trans [OF k updateLimits_block_ok(1)] by simp
  qed
qed

lemma while_body_ok:
  assumes "while_body ops st = Some x"
  shows "case x of Inl (r, st') \<Rightarrow> r = TIME_LIMIT \<and> step_ok st st' | Inr st' \<Rightarrow> step_ok st st'"
proof -
  from assms obtain s where "check_limits ops (st\<lparr>alg := s\<rparr>) = Some x"
    unfolding while_body_def
    by (auto simp: bind_eq_Some_conv split: prod.splits)
  from check_limits_ok [OF this] step_ok_trans [OF step_ok_alg [of st s]]
  show ?thesis by (auto split: sum.splits)
qed

lemma while_unprocessed_ok:
  assumes "while_unprocessed ops st = Some x"
  shows "case x of Inl (r, st') \<Rightarrow> r = TIME_LIMIT \<and> step_ok st st' | Inr st' \<Rightarrow> step_ok st st'"
  using assms
proof (induction ops st x rule: while_unprocessed_induct)
  case (step w ops st x)
  show ?case
  proof (cases "unprocessed_isEmpty ops (alg st)")
    case True
    then show ?thesis using step(2) by (auto simp: step_ok_refl)
  next
    case False
    then obtain y where y: "while_body ops st = Some y"
      and c: "(case y of Inl res \<Rightarrow> Some (Inl res) | Inr st' \<Rightarrow> w ops st') = Some x"
      using step(2) by (auto simp: bind_eq_Some_conv)
    note b = while_body_ok [OF y]
    show ?thesis
    proof (cases y)
      case (Inl res)
      then show ?thesis using c b by auto
    next
      case (Inr z)
      then have "w ops z = Some x" and "step_ok st z" using c b by simp_all
      from step(1) [OF this(1)] this(2) show ?thesis
        by (auto split: sum.splits intro: step_ok_trans)
    qed
  qed
qed

lemma for_body_ok:
  assumes "for_body ops st = Some x"
  shows "case x of
           Inl (r, st') \<Rightarrow> step_ok st st' \<and> (r = SATISFIABLE \<longrightarrow> complete st')
         | Inr st' \<Rightarrow> step_ok st st'"
proof -
  from assms obtain s y where y: "while_unprocessed ops (st\<lparr>alg := s\<rparr>) = Some y"
    and c: "(case y of Inl res \<Rightarrow> Some (Inl res)
       | Inr st \<Rightarrow>
           do {
             s \<leftarrow> onAllProcessed ops (alg st);
             if \<not> clausesFlushed ops s then Some (Inr (st\<lparr>alg := s\<rparr>))
             else if passive_isEmpty ops s
             then Some (Inl (if complete st then SATISFIABLE else REFUTATION_NOT_FOUND,
                             st\<lparr>alg := s\<rparr>))
             else
               do {
                 (c, s) \<leftarrow> passive_popSelected ops s;
                 (isActivated, s) \<leftarrow> activate ops c s;
                 s \<leftarrow> (if \<not> isActivated then handleUnsuccessfulActivation ops c s else Some s);
                 if timeLimitReached ops s then Some (Inl (TIME_LIMIT, st\<lparr>alg := s\<rparr>))
                 else Some (Inr (st\<lparr>alg := s\<rparr>))
               }
           }) = Some x"
    unfolding for_body_def by (auto simp: bind_eq_Some_conv)
  note w = while_unprocessed_ok [OF y]
  show ?thesis
  proof (cases y)
    case (Inl res)
    then show ?thesis using c w step_ok_trans [OF step_ok_alg [of st s]]
      by (auto split: prod.splits)
  next
    case (Inr z)
    then have z: "step_ok st z" using w step_ok_trans [OF step_ok_alg] by auto
    from c Inr obtain s' where
      "x = Inr (z\<lparr>alg := s'\<rparr>) \<or> x = Inl (TIME_LIMIT, z\<lparr>alg := s'\<rparr>) \<or>
       x = Inl (if complete z then SATISFIABLE else REFUTATION_NOT_FOUND, z\<lparr>alg := s'\<rparr>)"
      by (auto simp: bind_eq_Some_conv split: if_splits prod.splits)
    then show ?thesis
      using step_ok_trans [OF z step_ok_alg [of z s']] by (auto split: if_splits)
  qed
qed

lemma for_loop_ok:
  assumes "for_loop ops st = Some res"
  shows "step_ok st (snd res) \<and> (fst res = SATISFIABLE \<longrightarrow> complete (snd res))"
  using assms
proof (induction ops st res rule: for_loop_induct)
  case (step f ops st res)
  from step(2) obtain x where x: "for_body ops st = Some x"
    and c: "(case x of Inl res \<Rightarrow> Some res | Inr st' \<Rightarrow> f ops st') = Some res"
    by (auto simp: bind_eq_Some_conv)
  note b = for_body_ok [OF x]
  show ?case
  proof (cases x)
    case (Inl r)
    then show ?thesis using c b by (auto split: prod.splits)
  next
    case (Inr z)
    then have "f ops z = Some res" using c by simp
    from step(1) [OF this] b Inr show ?thesis
      by (auto intro: step_ok_trans)
  qed
qed

lemma while_unprocessed_empty:
  assumes "unprocessed_isEmpty ops (alg st)"
  shows "while_unprocessed ops st = Some (Inr st)"
  using assms by (subst while_unprocessed.simps) simp

lemma while_unprocessed_step:
  assumes "\<not> unprocessed_isEmpty ops (alg st)" "while_body ops st = Some (Inr st')"
  shows "while_unprocessed ops st = while_unprocessed ops st'"
  using assms by (subst while_unprocessed.simps) simp

lemma estimate_S6: "estimatedReachableCount env_S6 = Inr 1000"
  by (simp add: estimatedReachableCount_def estimatedReachableCount_exit_def env_S6_def bindE_def
      as_int_def as_llong_def int_range_def llong_range_def llong_div_def trunc_div_def Let_def)

lemma toy_while_body:
  "while_body toy_ops \<lparr>alg = toy_start, cnt = 0, complete = True, limited = False\<rparr>
     = Some (Inr \<lparr>alg = \<lparr>toy_unprocessed = [], toy_passive = [1], toy_limit = False\<rparr>,
                  cnt = 1, complete = True, limited = False\<rparr>)"
  by (simp add: while_body_def check_limits_def toy_ops_def toy_start_def ASS_def
      shouldUpdateLimits_def)

lemma toy_while_body_update:
  "while_body toy_ops \<lparr>alg = toy_start, cnt = 499, complete = True, limited = False\<rparr>
     = Some (Inr \<lparr>alg = toy_limited, cnt = 0, complete = False, limited = True\<rparr>)"
  by (simp add: while_body_def check_limits_def toy_ops_def toy_start_def ASS_def
      shouldUpdateLimits_def estimate_S6 updateLimits_block_def toy_limited_def)

lemma toy_while:
  "while_unprocessed toy_ops \<lparr>alg = toy_start, cnt = 0, complete = True, limited = False\<rparr>
     = Some (Inr \<lparr>alg = \<lparr>toy_unprocessed = [], toy_passive = [1], toy_limit = False\<rparr>,
                  cnt = 1, complete = True, limited = False\<rparr>)"
proof -
  have "\<not> unprocessed_isEmpty toy_ops (alg \<lparr>alg = toy_start, cnt = 0, complete = True, limited = False\<rparr>)"
    by (simp add: toy_ops_def toy_start_def)
  from while_unprocessed_step [OF this toy_while_body] show ?thesis
    by (simp add: while_unprocessed_empty toy_ops_def)
qed

lemma toy_while_update:
  "while_unprocessed toy_ops \<lparr>alg = toy_start, cnt = 499, complete = True, limited = False\<rparr>
     = Some (Inr \<lparr>alg = toy_limited, cnt = 0, complete = False, limited = True\<rparr>)"
proof -
  have "\<not> unprocessed_isEmpty toy_ops (alg \<lparr>alg = toy_start, cnt = 499, complete = True, limited = False\<rparr>)"
    by (simp add: toy_ops_def toy_start_def)
  from while_unprocessed_step [OF this toy_while_body_update] show ?thesis
    by (simp add: while_unprocessed_empty toy_ops_def toy_limited_def)
qed

lemma toy_for_body:
  "for_body toy_ops \<lparr>alg = toy_start, cnt = 0, complete = True, limited = False\<rparr>
     = Some (Inr \<lparr>alg = toy_saturated, cnt = 1, complete = True, limited = False\<rparr>)"
proof -
  have "newClausesToUnprocessed toy_ops toy_start = Some toy_start"
    by (simp add: toy_ops_def)
  then show ?thesis
    unfolding for_body_def using toy_while
    by (simp add: toy_ops_def toy_saturated_def)
qed

lemma toy_saturated_while:
  "while_unprocessed toy_ops \<lparr>alg = toy_saturated, cnt = 1, complete = True, limited = False\<rparr>
     = Some (Inr \<lparr>alg = toy_saturated, cnt = 1, complete = True, limited = False\<rparr>)"
  by (rule while_unprocessed_empty) (simp add: toy_ops_def toy_saturated_def)

lemma toy_limited_run:
  "doSaturation toy_ops toy_start 499
     = Some (REFUTATION_NOT_FOUND, \<lparr>alg = toy_limited, cnt = 0, complete = False, limited = True\<rparr>)"
proof -
  have "newClausesToUnprocessed toy_ops toy_start = Some toy_start"
    by (simp add: toy_ops_def)
  then have "for_body toy_ops \<lparr>alg = toy_start, cnt = 499, complete = True, limited = False\<rparr>
     = Some (Inl (REFUTATION_NOT_FOUND,
          \<lparr>alg = toy_limited, cnt = 0, complete = False, limited = True\<rparr>))"
    unfolding for_body_def using toy_while_update
    by (simp add: toy_ops_def toy_limited_def)
  from for_loop_exit [OF this] show ?thesis
    by (simp add: doSaturation_def toy_ops_def)
qed

theorem doSaturation_exhausted_witness:
  "doSaturation toy_ops toy_start 0
     = Some (SATISFIABLE, \<lparr>alg = toy_saturated, cnt = 1, complete = True, limited = False\<rparr>)
   \<and> unprocessed_isEmpty toy_ops toy_saturated"
proof -
  let ?init = "\<lparr>alg = toy_start, cnt = 0, complete = options_complete toy_ops toy_start,
      limited = False\<rparr>"
  let ?st = "\<lparr>alg = toy_saturated, cnt = 1, complete = True, limited = False\<rparr>"
  have c: "options_complete toy_ops toy_start = True" by (simp add: toy_ops_def)
  have reach: "rtranclp (\<lambda>a b. for_body toy_ops a = Some (Inr b)) ?init ?st"
    unfolding c using toy_for_body by (rule r_into_rtranclp)
  have new: "newClausesToUnprocessed toy_ops (alg ?st) = Some toy_saturated"
    by (simp add: toy_ops_def)
  have drained: "while_unprocessed toy_ops (?st\<lparr>alg := toy_saturated\<rparr>) = Some (Inr ?st)"
    using toy_saturated_while by simp
  have processed: "onAllProcessed toy_ops (alg ?st) = Some toy_saturated"
    by (simp add: toy_ops_def)
  have flushed: "clausesFlushed toy_ops toy_saturated" by (simp add: toy_ops_def)
  have empty: "passive_isEmpty toy_ops toy_saturated"
    by (simp add: toy_ops_def toy_saturated_def)
  from doSaturation_exhausted [OF reach new drained processed flushed empty]
  show ?thesis by simp
qed

lemma check_limits_update:
  assumes "\<not> timeLimitReached ops (alg st)"
    and "shouldUpdateLimits (weightLimited ops (alg st)) (ageLimited ops (alg st)) (cnt st) = (True, n)"
    and "estimatedReachableCount (env_of ops (alg st)) = Inr est" and "0 \<le> est"
    and "check_limits ops st = Some x"
  shows "\<exists>s st'. passive_updateLimits ops est (alg st) = Some s \<and> x = Inr st' \<and>
      alg st' = s \<and> cnt st' = n \<and>
      complete st' = (complete st \<and> \<not> weightLimited ops s \<and> \<not> ageLimited ops s) \<and>
      limited st' = (limited st \<or> weightLimited ops s \<or> ageLimited ops s)"
  using assms
  by (auto simp: check_limits_def updateLimits_block_def bind_eq_Some_conv Let_def)

lemma check_limits_no_update:
  assumes "\<not> timeLimitReached ops (alg st)"
    and "shouldUpdateLimits (weightLimited ops (alg st)) (ageLimited ops (alg st)) (cnt st) = (u, n)"
    and "\<not> u \<or> (\<exists>est. estimatedReachableCount (env_of ops (alg st)) = Inr est \<and> est < 0)"
    and "check_limits ops st = Some x"
  shows "x = Inr (st\<lparr>cnt := n\<rparr>)"
  using assms
  by (auto simp: check_limits_def split: if_splits)

lemma while_body_check_limits:
  assumes "while_body ops st = Some x"
  shows "\<exists>s. check_limits ops (st\<lparr>alg := s\<rparr>) = Some x"
  using assms unfolding while_body_def
  by (auto simp: bind_eq_Some_conv split: prod.splits)

lemma while_unprocessed_reach:
  assumes "rtranclp (\<lambda>c d. \<not> unprocessed_isEmpty ops (alg c) \<and> while_body ops c = Some (Inr d)) c d"
  shows "while_unprocessed ops c = while_unprocessed ops d"
  using assms
  by (induction rule: rtranclp_induct) (simp_all add: while_unprocessed_step)

lemma for_body_incomplete:
  assumes new: "newClausesToUnprocessed ops (alg a) = Some s"
    and w: "while_unprocessed ops (a\<lparr>alg := s\<rparr>) = while_unprocessed ops d"
    and d: "\<not> complete d"
    and x: "for_body ops a = Some x"
  shows "case x of Inl (r, st') \<Rightarrow> r \<noteq> SATISFIABLE | Inr b \<Rightarrow> \<not> complete b"
proof -
  from x new w obtain y where y: "while_unprocessed ops d = Some y"
    and c: "(case y of Inl res \<Rightarrow> Some (Inl res)
       | Inr st \<Rightarrow>
           do {
             s \<leftarrow> onAllProcessed ops (alg st);
             if \<not> clausesFlushed ops s then Some (Inr (st\<lparr>alg := s\<rparr>))
             else if passive_isEmpty ops s
             then Some (Inl (if complete st then SATISFIABLE else REFUTATION_NOT_FOUND,
                             st\<lparr>alg := s\<rparr>))
             else
               do {
                 (c, s) \<leftarrow> passive_popSelected ops s;
                 (isActivated, s) \<leftarrow> activate ops c s;
                 s \<leftarrow> (if \<not> isActivated then handleUnsuccessfulActivation ops c s else Some s);
                 if timeLimitReached ops s then Some (Inl (TIME_LIMIT, st\<lparr>alg := s\<rparr>))
                 else Some (Inr (st\<lparr>alg := s\<rparr>))
               }
           }) = Some x"
    unfolding for_body_def by (auto simp: bind_eq_Some_conv)
  note ok = while_unprocessed_ok [OF y]
  show ?thesis
  proof (cases y)
    case (Inl res)
    then show ?thesis using c ok by (auto split: prod.splits)
  next
    case (Inr z)
    then have z: "\<not> complete z" using ok d by (simp add: step_ok_def)
    from c Inr obtain s' where
      "x = Inr (z\<lparr>alg := s'\<rparr>) \<or> x = Inl (TIME_LIMIT, z\<lparr>alg := s'\<rparr>) \<or>
       x = Inl (if complete z then SATISFIABLE else REFUTATION_NOT_FOUND, z\<lparr>alg := s'\<rparr>)"
      by (auto simp: bind_eq_Some_conv split: if_splits prod.splits)
    then show ?thesis using z by auto
  qed
qed

lemma for_loop_incomplete:
  assumes "\<not> complete st" "for_loop ops st = Some (r, st')"
  shows "r \<noteq> SATISFIABLE"
  using for_loop_ok [OF assms(2)] assms(1) by (auto simp: step_ok_def)

lemma run_after_incomplete:
  assumes reach: "rtranclp (\<lambda>a b. for_body ops a = Some (Inr b))
        \<lparr>alg = s0, cnt = n0, complete = options_complete ops s0, limited = False\<rparr> a"
    and new: "newClausesToUnprocessed ops (alg a) = Some s"
    and inner: "rtranclp (\<lambda>c d. \<not> unprocessed_isEmpty ops (alg c) \<and>
        while_body ops c = Some (Inr d)) (a\<lparr>alg := s\<rparr>) c"
    and body: "\<not> unprocessed_isEmpty ops (alg c)" "while_body ops c = Some (Inr d)"
    and d: "\<not> complete d"
    and run: "doSaturation ops s0 n0 = Some (r, st')"
  shows "r \<noteq> SATISFIABLE"
proof -
  have w: "while_unprocessed ops (a\<lparr>alg := s\<rparr>) = while_unprocessed ops d"
    using while_unprocessed_reach [OF inner] while_unprocessed_step [OF body] by simp
  have fl: "for_loop ops a = Some (r, st')"
    using run for_loop_reach [OF reach] by (simp add: doSaturation_def)
  then obtain x where x: "for_body ops a = Some x"
    and k: "(case x of Inl res \<Rightarrow> Some res | Inr b \<Rightarrow> for_loop ops b) = Some (r, st')"
    by (subst (asm) for_loop.simps) (auto simp: bind_eq_Some_conv)
  note i = for_body_incomplete [OF new w d x]
  show ?thesis
  proof (cases x)
    case (Inl res)
    then show ?thesis using k i by auto
  next
    case (Inr b)
    then show ?thesis using k i for_loop_incomplete [of b ops r st'] by simp
  qed
qed

lemma toy_check_limits_update:
  "check_limits toy_ops \<lparr>alg = \<lparr>toy_unprocessed = [], toy_passive = [1], toy_limit = False\<rparr>,
        cnt = 499, complete = True, limited = False\<rparr>
     = Some (Inr \<lparr>alg = toy_limited, cnt = 0, complete = False, limited = True\<rparr>)"
  by (simp add: check_limits_def toy_ops_def shouldUpdateLimits_def estimate_S6
      updateLimits_block_def toy_limited_def)

text \<open>
  C5. The limit check at the end of the body of the inner loop is the only place that
  assigns \<open>complete\<close>. When it performs a limit update (the cadence of
  \<open>shouldUpdateLimits\<close> fires and the estimate is not negative), the state it returns has
  \<open>complete\<close> true exactly if it was true before and neither the weight limit nor the age
  limit is active after \<open>updateLimits\<close>: an update that leaves a limit active leaves
  \<open>complete\<close> false (and sets the history variable \<open>limited\<close>). Without an update the
  check changes the counter only. No step of the loop turns \<open>complete\<close> from false to true
  or resets \<open>limited\<close>, so that the loop entered with \<open>complete\<close> false does not return
  \<open>SATISFIABLE\<close>, and a run of \<open>doSaturation\<close> in which some execution of the body of the
  inner loop performed a limit update that left a limit active does not return
  \<open>SATISFIABLE\<close>.
\<close>

theorem complete_never_restored:
  "(\<forall>est st st'. updateLimits_block ops est st = Some st' \<and>
        (weightLimited ops (alg st') \<or> ageLimited ops (alg st')) \<longrightarrow>
        \<not> complete st' \<and> limited st')
   \<and> (\<forall>st st'. \<not> complete st \<and>
        ((\<exists>est. updateLimits_block ops est st = Some st') \<or> check_limits ops st = Some (Inr st') \<or>
         while_body ops st = Some (Inr st') \<or> while_unprocessed ops st = Some (Inr st') \<or>
         for_body ops st = Some (Inr st')) \<longrightarrow> \<not> complete st')
   \<and> (\<forall>st r st'. \<not> complete st \<and> for_loop ops st = Some (r, st') \<longrightarrow> r \<noteq> SATISFIABLE)
   \<and> (\<forall>s n r st'. doSaturation ops s n = Some (r, st') \<and> limited st' \<longrightarrow> r \<noteq> SATISFIABLE)
   \<and> (\<forall>st n est x. \<not> timeLimitReached ops (alg st) \<and>
        shouldUpdateLimits (weightLimited ops (alg st)) (ageLimited ops (alg st)) (cnt st)
          = (True, n) \<and>
        estimatedReachableCount (env_of ops (alg st)) = Inr est \<and> 0 \<le> est \<and>
        check_limits ops st = Some x \<longrightarrow>
        (\<exists>s st'. passive_updateLimits ops est (alg st) = Some s \<and> x = Inr st' \<and>
           alg st' = s \<and> cnt st' = n \<and>
           complete st' = (complete st \<and> \<not> weightLimited ops s \<and> \<not> ageLimited ops s) \<and>
           limited st' = (limited st \<or> weightLimited ops s \<or> ageLimited ops s)))
   \<and> (\<forall>st u n x. \<not> timeLimitReached ops (alg st) \<and>
        shouldUpdateLimits (weightLimited ops (alg st)) (ageLimited ops (alg st)) (cnt st)
          = (u, n) \<and>
        (\<not> u \<or> (\<exists>est. estimatedReachableCount (env_of ops (alg st)) = Inr est \<and> est < 0)) \<and>
        check_limits ops st = Some x \<longrightarrow> x = Inr (st\<lparr>cnt := n\<rparr>))
   \<and> (\<forall>st x. while_body ops st = Some x \<longrightarrow> (\<exists>s. check_limits ops (st\<lparr>alg := s\<rparr>) = Some x))
   \<and> (\<forall>st st'. limited st \<and>
        ((\<exists>est. updateLimits_block ops est st = Some st') \<or> check_limits ops st = Some (Inr st') \<or>
         while_body ops st = Some (Inr st') \<or> while_unprocessed ops st = Some (Inr st') \<or>
         for_body ops st = Some (Inr st') \<or> (\<exists>r. for_loop ops st = Some (r, st'))) \<longrightarrow>
        limited st')
   \<and> (\<forall>s0 n0 a s c s' n est d r st'.
        rtranclp (\<lambda>a b. for_body ops a = Some (Inr b))
          \<lparr>alg = s0, cnt = n0, complete = options_complete ops s0, limited = False\<rparr> a \<and>
        newClausesToUnprocessed ops (alg a) = Some s \<and>
        rtranclp (\<lambda>c d. \<not> unprocessed_isEmpty ops (alg c) \<and> while_body ops c = Some (Inr d))
          (a\<lparr>alg := s\<rparr>) c \<and>
        \<not> unprocessed_isEmpty ops (alg c) \<and> while_body ops c = Some (Inr d) \<and>
        check_limits ops (c\<lparr>alg := s'\<rparr>) = Some (Inr d) \<and>
        \<not> timeLimitReached ops s' \<and>
        shouldUpdateLimits (weightLimited ops s') (ageLimited ops s') (cnt c) = (True, n) \<and>
        estimatedReachableCount (env_of ops s') = Inr est \<and> 0 \<le> est \<and>
        (weightLimited ops (alg d) \<or> ageLimited ops (alg d)) \<and>
        doSaturation ops s0 n0 = Some (r, st') \<longrightarrow> r \<noteq> SATISFIABLE)"
proof -
  have 1: "\<not> complete st' \<and> limited st'"
    if "updateLimits_block ops est st = Some st' \<and>
        (weightLimited ops (alg st') \<or> ageLimited ops (alg st'))" for est st st'
    using that updateLimits_block_ok(2) by blast
  have 2: "\<not> complete st'"
    if a: "\<not> complete st \<and>
        ((\<exists>est. updateLimits_block ops est st = Some st') \<or> check_limits ops st = Some (Inr st') \<or>
         while_body ops st = Some (Inr st') \<or> while_unprocessed ops st = Some (Inr st') \<or>
         for_body ops st = Some (Inr st'))" for st st'
  proof -
    from a have "step_ok st st'"
      using updateLimits_block_ok(1) [of ops _ st st'] check_limits_ok [of ops st "Inr st'"]
        while_body_ok [of ops st "Inr st'"] while_unprocessed_ok [of ops st "Inr st'"]
        for_body_ok [of ops st "Inr st'"]
      by auto
    with a show ?thesis by (simp add: step_ok_def)
  qed
  have 3: "r \<noteq> SATISFIABLE"
    if a: "\<not> complete st \<and> for_loop ops st = Some (r, st')" for st r st'
  proof -
    from a have "step_ok st st' \<and> (r = SATISFIABLE \<longrightarrow> complete st')"
      using for_loop_ok [of ops st "(r, st')"] by simp
    with a show ?thesis by (auto simp: step_ok_def)
  qed
  have 4: "r \<noteq> SATISFIABLE"
    if a: "doSaturation ops s n = Some (r, st') \<and> limited st'" for s n r st'
  proof -
    let ?init = "\<lparr>alg = s, cnt = n, complete = options_complete ops s, limited = False\<rparr>"
    from a have "step_ok ?init st' \<and> (r = SATISFIABLE \<longrightarrow> complete st')"
      using for_loop_ok [of ops ?init "(r, st')"] by (simp add: doSaturation_def)
    moreover have "limits_imply_incomplete ?init" by (simp add: limits_imply_incomplete_def)
    ultimately show ?thesis
      using a by (auto simp: step_ok_def limits_imply_incomplete_def)
  qed
  have 5: "\<exists>s st'. passive_updateLimits ops est (alg st) = Some s \<and> x = Inr st' \<and>
           alg st' = s \<and> cnt st' = n \<and>
           complete st' = (complete st \<and> \<not> weightLimited ops s \<and> \<not> ageLimited ops s) \<and>
           limited st' = (limited st \<or> weightLimited ops s \<or> ageLimited ops s)"
    if "\<not> timeLimitReached ops (alg st) \<and>
        shouldUpdateLimits (weightLimited ops (alg st)) (ageLimited ops (alg st)) (cnt st)
          = (True, n) \<and>
        estimatedReachableCount (env_of ops (alg st)) = Inr est \<and> 0 \<le> est \<and>
        check_limits ops st = Some x" for st n est x
    using that check_limits_update [of ops st n est x] by blast
  have 6: "x = Inr (st\<lparr>cnt := n\<rparr>)"
    if "\<not> timeLimitReached ops (alg st) \<and>
        shouldUpdateLimits (weightLimited ops (alg st)) (ageLimited ops (alg st)) (cnt st)
          = (u, n) \<and>
        (\<not> u \<or> (\<exists>est. estimatedReachableCount (env_of ops (alg st)) = Inr est \<and> est < 0)) \<and>
        check_limits ops st = Some x" for st u n x
    using that check_limits_no_update [of ops st u n x] by blast
  have 7: "\<exists>s. check_limits ops (st\<lparr>alg := s\<rparr>) = Some x"
    if "while_body ops st = Some x" for st x
    using that by (rule while_body_check_limits)
  have 8: "limited st'"
    if a: "limited st \<and>
        ((\<exists>est. updateLimits_block ops est st = Some st') \<or> check_limits ops st = Some (Inr st') \<or>
         while_body ops st = Some (Inr st') \<or> while_unprocessed ops st = Some (Inr st') \<or>
         for_body ops st = Some (Inr st') \<or> (\<exists>r. for_loop ops st = Some (r, st')))" for st st'
  proof -
    from a have "step_ok st st'"
      using updateLimits_block_ok(1) [of ops _ st st'] check_limits_ok [of ops st "Inr st'"]
        while_body_ok [of ops st "Inr st'"] while_unprocessed_ok [of ops st "Inr st'"]
        for_body_ok [of ops st "Inr st'"] for_loop_ok [of ops st "(_, st')"]
      by auto
    with a show ?thesis by (simp add: step_ok_def)
  qed
  have 9: "r \<noteq> SATISFIABLE"
    if a: "rtranclp (\<lambda>a b. for_body ops a = Some (Inr b))
          \<lparr>alg = s0, cnt = n0, complete = options_complete ops s0, limited = False\<rparr> a \<and>
        newClausesToUnprocessed ops (alg a) = Some s \<and>
        rtranclp (\<lambda>c d. \<not> unprocessed_isEmpty ops (alg c) \<and> while_body ops c = Some (Inr d))
          (a\<lparr>alg := s\<rparr>) c \<and>
        \<not> unprocessed_isEmpty ops (alg c) \<and> while_body ops c = Some (Inr d) \<and>
        check_limits ops (c\<lparr>alg := s'\<rparr>) = Some (Inr d) \<and>
        \<not> timeLimitReached ops s' \<and>
        shouldUpdateLimits (weightLimited ops s') (ageLimited ops s') (cnt c) = (True, n) \<and>
        estimatedReachableCount (env_of ops s') = Inr est \<and> 0 \<le> est \<and>
        (weightLimited ops (alg d) \<or> ageLimited ops (alg d)) \<and>
        doSaturation ops s0 n0 = Some (r, st')" for s0 n0 a s c s' n est d r st'
  proof -
    from a have "\<not> complete d"
      using check_limits_update [of ops "c\<lparr>alg := s'\<rparr>" n est "Inr d"] by auto
    with a show ?thesis
      using run_after_incomplete [of ops s0 n0 a s c d r st'] by blast
  qed
  show ?thesis
    by (intro conjI; intro allI impI; (rule 1 2 3 4 5 6 7 8 9, assumption))
qed

theorem complete_never_restored_witness:
  "doSaturation toy_ops toy_start 499
     = Some (REFUTATION_NOT_FOUND, \<lparr>alg = toy_limited, cnt = 0, complete = False, limited = True\<rparr>)
   \<and> while_body toy_ops \<lparr>alg = toy_start, cnt = 499, complete = True, limited = False\<rparr>
     = Some (Inr \<lparr>alg = toy_limited, cnt = 0, complete = False, limited = True\<rparr>)
   \<and> check_limits toy_ops
        \<lparr>alg = \<lparr>toy_unprocessed = [], toy_passive = [1], toy_limit = False\<rparr>,
         cnt = 499, complete = True, limited = False\<rparr>
     = Some (Inr \<lparr>alg = toy_limited, cnt = 0, complete = False, limited = True\<rparr>)
   \<and> shouldUpdateLimits False False 499 = (True, 0)
   \<and> estimatedReachableCount env_S6 = Inr 1000
   \<and> weightLimited toy_ops toy_limited
   \<and> fst (the (doSaturation toy_ops toy_start 499)) \<noteq> SATISFIABLE"
proof -
  let ?c = "\<lparr>alg = toy_start, cnt = 499, complete = True, limited = False\<rparr>"
  let ?mid = "\<lparr>toy_unprocessed = [], toy_passive = [1], toy_limit = False\<rparr>"
  let ?d = "\<lparr>alg = toy_limited, cnt = 0, complete = False, limited = True\<rparr>"
  note run = complete_never_restored [of toy_ops, THEN conjunct2, THEN conjunct2, THEN conjunct2,
      THEN conjunct2, THEN conjunct2, THEN conjunct2, THEN conjunct2, THEN conjunct2, rule_format]
  have oc: "options_complete toy_ops toy_start = True" by (simp add: toy_ops_def)
  have r1: "rtranclp (\<lambda>a b. for_body toy_ops a = Some (Inr b))
      \<lparr>alg = toy_start, cnt = 499, complete = options_complete toy_ops toy_start,
       limited = False\<rparr> ?c"
    unfolding oc by (rule rtranclp.rtrancl_refl)
  have new: "newClausesToUnprocessed toy_ops (alg ?c) = Some toy_start"
    by (simp add: toy_ops_def)
  have r2: "rtranclp (\<lambda>c d. \<not> unprocessed_isEmpty toy_ops (alg c) \<and>
      while_body toy_ops c = Some (Inr d)) (?c\<lparr>alg := toy_start\<rparr>) ?c"
    by simp
  have ne: "\<not> unprocessed_isEmpty toy_ops (alg ?c)" by (simp add: toy_ops_def toy_start_def)
  have cl: "check_limits toy_ops (?c\<lparr>alg := ?mid\<rparr>) = Some (Inr ?d)"
    using toy_check_limits_update by simp
  have tl: "\<not> timeLimitReached toy_ops ?mid" by (simp add: toy_ops_def)
  have su: "shouldUpdateLimits (weightLimited toy_ops ?mid) (ageLimited toy_ops ?mid) (cnt ?c)
      = (True, 0)"
    by (simp add: toy_ops_def shouldUpdateLimits_def)
  have es: "estimatedReachableCount (env_of toy_ops ?mid) = Inr 1000"
    using estimate_S6 by (simp add: toy_ops_def)
  have wl: "weightLimited toy_ops (alg ?d) \<or> ageLimited toy_ops (alg ?d)"
    by (simp add: toy_ops_def toy_limited_def)
  have "(0::int) \<le> 1000" by simp
  with r1 new r2 ne toy_while_body_update cl tl su es wl toy_limited_run
  have "REFUTATION_NOT_FOUND \<noteq> SATISFIABLE"
    by (intro run conjI)
  then have "fst (the (doSaturation toy_ops toy_start 499)) \<noteq> SATISFIABLE"
    using toy_limited_run by simp
  then show ?thesis
    using toy_limited_run toy_while_body_update toy_check_limits_update estimate_S6
    by (simp add: toy_ops_def toy_limited_def shouldUpdateLimits_def)
qed

section \<open>Properties of the portfolio scheduler\<close>

lemma slicesRun_fresh:
  "\<forall>x \<in> set (slicesRun runSlice remainingBudget schedule ds remember w).
      snd (getSliceTime (fst x)) \<notin> remember \<and> fst (snd x) \<le> fst (getSliceTime (fst x))"
proof (induction schedule arbitrary: remember w)
  case Nil
  then show ?case by simp
next
  case (Cons sliceCode schedule)
  obtain t c where g: "getSliceTime sliceCode = (t, c)" by (cases "getSliceTime sliceCode")
  obtain ok w' where r: "runSlice sliceCode (min t (remainingBudget ds w)) w = (ok, w')"
    by (cases "runSlice sliceCode (min t (remainingBudget ds w)) w")
  show ?case
    using Cons.IH [of remember w] Cons.IH [of "insert c remember" w'] g r
    by auto
qed

lemma slicesRun_distinct:
  "distinct (map (\<lambda>x. snd (getSliceTime (fst x)))
     (slicesRun runSlice remainingBudget schedule ds remember w))"
proof (induction schedule arbitrary: remember w)
  case Nil
  then show ?case by simp
next
  case (Cons sliceCode schedule)
  obtain t c where g: "getSliceTime sliceCode = (t, c)" by (cases "getSliceTime sliceCode")
  obtain ok w' where r: "runSlice sliceCode (min t (remainingBudget ds w)) w = (ok, w')"
    by (cases "runSlice sliceCode (min t (remainingBudget ds w)) w")
  show ?case
    using Cons.IH [of remember w] Cons.IH [of "insert c remember" w'] g r
      slicesRun_fresh [of runSlice remainingBudget schedule ds "insert c remember" w']
    by auto
qed

lemma runSchedule_result:
  "fst (runSchedule runSlice remainingBudget schedule ds remember fallback w) =
     (\<exists>x \<in> set (slicesRun runSlice remainingBudget schedule ds remember w). snd (snd x))"
proof (induction schedule arbitrary: remember w)
  case Nil
  then show ?case by simp
next
  case (Cons sliceCode schedule)
  obtain t c where g: "getSliceTime sliceCode = (t, c)" by (cases "getSliceTime sliceCode")
  obtain ok w' where r: "runSlice sliceCode (min t (remainingBudget ds w)) w = (ok, w')"
    by (cases "runSlice sliceCode (min t (remainingBudget ds w)) w")
  show ?case
    using Cons.IH [of remember w] Cons.IH [of "insert c remember" w'] g r
    by auto
qed

lemma runSchedule_remember:
  "fst (snd (runSchedule runSlice remainingBudget schedule ds remember fallback w)) =
     remember \<union> (\<lambda>x. snd (getSliceTime (fst x))) `
        {x \<in> set (slicesRun runSlice remainingBudget schedule ds remember w). \<not> snd (snd x)}"
proof (induction schedule arbitrary: remember w)
  case Nil
  then show ?case by simp
next
  case (Cons sliceCode schedule)
  obtain t c where g: "getSliceTime sliceCode = (t, c)" by (cases "getSliceTime sliceCode")
  obtain ok w' where r: "runSlice sliceCode (min t (remainingBudget ds w)) w = (ok, w')"
    by (cases "runSlice sliceCode (min t (remainingBudget ds w)) w")
  show ?case
  proof (cases "c \<in> remember")
    case True
    then show ?thesis using Cons.IH [of remember w] g by simp
  next
    case False
    show ?thesis
    proof (cases ok)
      case True
      then show ?thesis using False g r by auto
    next
      case ok: False
      have "fst (snd (runSchedule runSlice remainingBudget (sliceCode # schedule) ds remember fallback w))
          = insert c remember \<union> (\<lambda>x. snd (getSliceTime (fst x))) `
              {x \<in> set (slicesRun runSlice remainingBudget schedule ds (insert c remember) w').
               \<not> snd (snd x)}"
        using Cons.IH [of "insert c remember" w'] False ok g r by simp
      also have "\<dots> = remember \<union> (\<lambda>x. snd (getSliceTime (fst x))) `
          {x \<in> set (slicesRun runSlice remainingBudget (sliceCode # schedule) ds remember w).
           \<not> snd (snd x)}"
      proof -
        have sr: "slicesRun runSlice remainingBudget (sliceCode # schedule) ds remember w =
            (sliceCode, min t (remainingBudget ds w), False) #
            slicesRun runSlice remainingBudget schedule ds (insert c remember) w'"
          using False ok g r by simp
        have st: "{x \<in> set ((sliceCode, min t (remainingBudget ds w), False) # L). \<not> snd (snd x)}
            = insert (sliceCode, min t (remainingBudget ds w), False) {x \<in> set L. \<not> snd (snd x)}"
          for L :: "(string \<times> nat \<times> bool) list"
          by auto
        show ?thesis unfolding sr st using g by simp
      qed
      finally show ?thesis .
    qed
  qed
qed

lemma runSchedule_failed:
  assumes "\<not> fst (runSchedule runSlice remainingBudget schedule ds remember fallback w)"
  shows "\<forall>s \<in> set schedule. snd (getSliceTime s) \<in>
      fst (snd (runSchedule runSlice remainingBudget schedule ds remember fallback w))"
  using assms
proof (induction schedule arbitrary: remember w)
  case Nil
  then show ?case by simp
next
  case (Cons sliceCode schedule)
  obtain t c where g: "getSliceTime sliceCode = (t, c)" by (cases "getSliceTime sliceCode")
  obtain ok w' where r: "runSlice sliceCode (min t (remainingBudget ds w)) w = (ok, w')"
    by (cases "runSlice sliceCode (min t (remainingBudget ds w)) w")
  have mono: "remember \<subseteq> fst (snd (runSchedule runSlice remainingBudget schedule ds remember fallback w))"
    for remember w
    by (subst runSchedule_remember) blast
  show ?case
  proof (cases "c \<in> remember")
    case True
    then show ?thesis using Cons.IH [of remember w] Cons.prems g mono [of remember w] by auto
  next
    case False
    then show ?thesis
      using Cons.IH [of "insert c remember" w'] Cons.prems g r mono [of "insert c remember" w']
      by (cases ok) auto
  qed
qed

lemma toy_schedule_run:
  "runSchedule toy_runSlice toy_remaining toy_schedule 1000 {''lrs-4''} False 0
     = (True, {''lrs-4'', ''dis+11''}, 1000)"
  "slicesRun toy_runSlice toy_remaining toy_schedule 1000 {''lrs-4''} 0
     = [(''dis+11_300'', 300, False), (''ott+1_900'', 700, True)]"
  by (simp_all add: toy_schedule_def getSliceTime_def decimal_def toy_runSlice_def
      toy_remaining_def insert_commute)

text \<open>
  C8. \<open>runSchedule\<close> goes through the slices in order: on the empty schedule it returns
  false; a slice whose code is in \<open>remember\<close> is skipped; another slice runs with the budget
  \<open>min(sliceTime, remainingBudget)\<close>, and if it succeeds \<open>runSchedule\<close> returns true at once,
  otherwise its code is inserted into \<open>remember\<close> and the rest of the schedule is tried. So
  \<open>runSchedule\<close> returns true exactly when a slice it ran succeeded; the slices it runs have
  codes outside \<open>remember\<close>, different from each other, and budgets within their slice times;
  and when it returns false every code of the schedule is in \<open>remember\<close>.
\<close>

theorem runSchedule_spec:
  "runSchedule runSlice remainingBudget [] ds remember fallback w = (False, remember, w)
   \<and> (\<forall>sliceCode.
        runSchedule runSlice remainingBudget (sliceCode # schedule) ds remember fallback w =
          (let sliceTime = fst (getSliceTime sliceCode);
               chopped = snd (getSliceTime sliceCode);
               budget = min sliceTime (remainingBudget ds w);
               slice = runSlice sliceCode budget w
           in if chopped \<in> remember
              then runSchedule runSlice remainingBudget schedule ds remember fallback w
              else if fst slice then (True, remember, snd slice)
              else runSchedule runSlice remainingBudget schedule ds (insert chopped remember)
                     fallback (snd slice)))
   \<and> fst (runSchedule runSlice remainingBudget schedule ds remember fallback w) =
        (\<exists>x \<in> set (slicesRun runSlice remainingBudget schedule ds remember w). snd (snd x))
   \<and> (\<forall>x \<in> set (slicesRun runSlice remainingBudget schedule ds remember w).
        snd (getSliceTime (fst x)) \<notin> remember \<and> fst (snd x) \<le> fst (getSliceTime (fst x)))
   \<and> distinct (map (\<lambda>x. snd (getSliceTime (fst x)))
        (slicesRun runSlice remainingBudget schedule ds remember w))
   \<and> (\<not> fst (runSchedule runSlice remainingBudget schedule ds remember fallback w) \<longrightarrow>
        (\<forall>s \<in> set schedule. snd (getSliceTime s) \<in>
           fst (snd (runSchedule runSlice remainingBudget schedule ds remember fallback w))))"
proof -
  have step: "runSchedule runSlice remainingBudget (sliceCode # schedule) ds remember fallback w =
          (let sliceTime = fst (getSliceTime sliceCode);
               chopped = snd (getSliceTime sliceCode);
               budget = min sliceTime (remainingBudget ds w);
               slice = runSlice sliceCode budget w
           in if chopped \<in> remember
              then runSchedule runSlice remainingBudget schedule ds remember fallback w
              else if fst slice then (True, remember, snd slice)
              else runSchedule runSlice remainingBudget schedule ds (insert chopped remember)
                     fallback (snd slice))" for sliceCode
    by (simp add: Let_def split: prod.splits)
  show ?thesis
    using step runSchedule_result [of runSlice remainingBudget schedule ds remember fallback w]
      slicesRun_fresh [of runSlice remainingBudget schedule ds remember w]
      slicesRun_distinct [of runSlice remainingBudget schedule ds remember w]
      runSchedule_failed [of runSlice remainingBudget schedule ds remember fallback w]
    by simp
qed

theorem runSchedule_spec_witness:
  "runSchedule toy_runSlice toy_remaining toy_schedule 1000 {''lrs-4''} False 0
     = (True, {''lrs-4'', ''dis+11''}, 1000)
   \<and> slicesRun toy_runSlice toy_remaining toy_schedule 1000 {''lrs-4''} 0
     = [(''dis+11_300'', 300, False), (''ott+1_900'', 700, True)]
   \<and> distinct (map (\<lambda>x. snd (getSliceTime (fst x)))
        (slicesRun toy_runSlice toy_remaining toy_schedule 1000 {''lrs-4''} 0))"
  using runSchedule_spec [of toy_runSlice toy_remaining 1000 "{''lrs-4''}" False 0 toy_schedule]
    toy_schedule_run
  by simp

lemma subst_compose: "subst (compose \<sigma> \<tau>) t = subst \<tau> (subst \<sigma> t)"
  by (induction t) (simp_all add: compose_def)

lemma subst_Var: "subst Var t = t"
  by (induction t) (simp_all add: map_idI)

lemma compose_Var: "compose Var \<tau> = \<tau>"
  by (simp add: compose_def)

lemma compose_assoc: "compose (compose \<rho> \<sigma>) \<tau> = compose \<rho> (compose \<sigma> \<tau>)"
  by (rule ext) (simp add: compose_def subst_compose [symmetric])

lemma unifier_Nil: "unifier \<tau> []"
  by (simp add: unifier_def)

lemma unifier_Cons: "unifier \<tau> ((s, t) # E) = (subst \<tau> s = subst \<tau> t \<and> unifier \<tau> E)"
  by (simp add: unifier_def)

lemma unifier_append: "unifier \<tau> (E @ F) = (unifier \<tau> E \<and> unifier \<tau> F)"
  by (auto simp: unifier_def)

lemma unifier_subst_eqs: "unifier \<tau> (subst_eqs \<sigma> E) = unifier (compose \<sigma> \<tau>) E"
  by (auto simp: unifier_def subst_eqs_def subst_compose)

lemma unifier_zip:
  assumes "length ts = length us"
  shows "unifier \<tau> (zip ts us) = (map (subst \<tau>) ts = map (subst \<tau>) us)"
  using assms by (induction ts us rule: list_induct2) (simp_all add: unifier_Nil unifier_Cons)

lemma bind1_absorb:
  assumes "\<tau> x = subst \<tau> t"
  shows "compose (bind1 x t) \<tau> = \<tau>"
  using assms by (auto simp: compose_def bind1_def)

lemma tsize_occurs:
  assumes "x \<in> vars t" "t \<noteq> Var x"
  shows "tsize (\<tau> x) < tsize (subst \<tau> t)"
  using assms
proof (induction t)
  case (Var y)
  then show ?case by simp
next
  case (App f ts)
  then obtain u where u: "u \<in> set ts" "x \<in> vars u" by auto
  have "tsize (\<tau> x) \<le> tsize (subst \<tau> u)"
  proof (cases "u = Var x")
    case True
    then show ?thesis by simp
  next
    case False
    then show ?thesis using App.IH [OF u(1) u(2)] by simp
  qed
  also have "\<dots> \<le> sum_list (map tsize (map (subst \<tau>) ts))"
    using u(1) by (intro member_le_sum_list) auto
  finally show ?case by simp
qed

lemma occurs_no_unifier:
  assumes "x \<in> vars t" "t \<noteq> Var x"
  shows "subst \<tau> (Var x) \<noteq> subst \<tau> t"
  using tsize_occurs [OF assms, of \<tau>] by auto

lemma unify_eqs_sound:
  assumes "unify_eqs E = Some \<sigma>"
  shows "unifier \<sigma> E"
  using assms
proof (induction E arbitrary: \<sigma> rule: unify_eqs.induct)
  case 1
  then show ?case by (simp add: unifier_Nil)
next
  case (2 x t E)
  show ?case
  proof (cases "t = Var x")
    case True
    then show ?thesis using 2 by (simp add: unifier_Cons)
  next
    case False
    then obtain \<sigma>' where x: "x \<notin> vars t" and s': "unify_eqs (subst_eqs (bind1 x t) E) = Some \<sigma>'"
      and s: "\<sigma> = compose (bind1 x t) \<sigma>'"
      using "2.prems" by (auto split: if_splits)
    from "2.IH"(2) [OF False x s'] have "unifier \<sigma> E" by (simp add: unifier_subst_eqs s)
    moreover have "subst \<sigma> (Var x) = subst \<sigma> t"
      unfolding s subst_compose using x by (simp add: subst_bind1_fresh) (simp add: bind1_def)
    ultimately show ?thesis by (simp add: unifier_Cons)
  qed
next
  case (3 f ts x E)
  then obtain \<sigma>' where x: "x \<notin> vars (App f ts)"
    and s': "unify_eqs (subst_eqs (bind1 x (App f ts)) E) = Some \<sigma>'"
    and s: "\<sigma> = compose (bind1 x (App f ts)) \<sigma>'"
    by (auto split: if_splits)
  from "3.IH" [OF x s'] have "unifier \<sigma> E" by (simp add: unifier_subst_eqs s)
  moreover have "subst \<sigma> (App f ts) = subst \<sigma> (Var x)"
    unfolding s subst_compose subst_bind1_fresh [OF x] by (simp add: bind1_def)
  ultimately show ?case by (simp add: unifier_Cons)
next
  case (4 f ts g us E)
  then have a: "f = g \<and> length ts = length us" and u: "unify_eqs (zip ts us @ E) = Some \<sigma>"
    by (auto split: if_splits)
  from "4.IH" [OF a u] show ?case
    using a by (simp add: unifier_append unifier_zip unifier_Cons)
qed

lemma unify_eqs_general:
  assumes "unify_eqs E = Some \<sigma>" "unifier \<tau> E"
  shows "compose \<sigma> \<tau> = \<tau>"
  using assms
proof (induction E arbitrary: \<sigma> rule: unify_eqs.induct)
  case 1
  then show ?case by (simp add: compose_Var)
next
  case (2 x t E)
  show ?case
  proof (cases "t = Var x")
    case True
    then show ?thesis using 2 by (simp add: unifier_Cons)
  next
    case False
    then obtain \<sigma>' where x: "x \<notin> vars t" and s': "unify_eqs (subst_eqs (bind1 x t) E) = Some \<sigma>'"
      and s: "\<sigma> = compose (bind1 x t) \<sigma>'"
      using "2.prems"(1) by (auto split: if_splits)
    from "2.prems"(2) have b: "compose (bind1 x t) \<tau> = \<tau>"
      by (intro bind1_absorb) (simp add: unifier_Cons)
    then have "unifier \<tau> (subst_eqs (bind1 x t) E)"
      using "2.prems"(2) by (simp add: unifier_subst_eqs unifier_Cons)
    from "2.IH"(2) [OF False x s' this] show ?thesis
      by (simp add: s compose_assoc b)
  qed
next
  case (3 f ts x E)
  then obtain \<sigma>' where x: "x \<notin> vars (App f ts)"
    and s': "unify_eqs (subst_eqs (bind1 x (App f ts)) E) = Some \<sigma>'"
    and s: "\<sigma> = compose (bind1 x (App f ts)) \<sigma>'"
    by (auto split: if_splits)
  from "3.prems"(2) have b: "compose (bind1 x (App f ts)) \<tau> = \<tau>"
    by (intro bind1_absorb) (simp add: unifier_Cons)
  then have "unifier \<tau> (subst_eqs (bind1 x (App f ts)) E)"
    using "3.prems"(2) by (simp add: unifier_subst_eqs unifier_Cons)
  from "3.IH" [OF x s' this] show ?case
    by (simp add: s compose_assoc b)
next
  case (4 f ts g us E)
  then have a: "f = g \<and> length ts = length us" and u: "unify_eqs (zip ts us @ E) = Some \<sigma>"
    by (auto split: if_splits)
  from "4.prems"(2) a have "unifier \<tau> (zip ts us @ E)"
    by (simp add: unifier_append unifier_zip unifier_Cons)
  from "4.IH" [OF a u this] show ?case .
qed

lemma unify_eqs_complete:
  assumes "unifier \<tau> E"
  shows "\<exists>\<sigma>. unify_eqs E = Some \<sigma>"
  using assms
proof (induction E rule: unify_eqs.induct)
  case 1
  then show ?case by simp
next
  case (2 x t E)
  show ?case
  proof (cases "t = Var x")
    case True
    then show ?thesis using 2 by (simp add: unifier_Cons)
  next
    case False
    have e: "subst \<tau> (Var x) = subst \<tau> t" using "2.prems" by (simp add: unifier_Cons)
    then have x: "x \<notin> vars t" using occurs_no_unifier [of x t \<tau>] False by blast
    from e have b: "compose (bind1 x t) \<tau> = \<tau>" by (intro bind1_absorb) simp
    then have "unifier \<tau> (subst_eqs (bind1 x t) E)"
      using "2.prems" by (simp add: unifier_subst_eqs unifier_Cons)
    from "2.IH"(2) [OF False x this] show ?thesis using False x by auto
  qed
next
  case (3 f ts x E)
  have e: "subst \<tau> (Var x) = subst \<tau> (App f ts)" using "3.prems" by (simp add: unifier_Cons)
  then have x: "x \<notin> vars (App f ts)" using occurs_no_unifier [of x "App f ts" \<tau>] by blast
  from e have b: "compose (bind1 x (App f ts)) \<tau> = \<tau>" by (intro bind1_absorb) simp
  then have "unifier \<tau> (subst_eqs (bind1 x (App f ts)) E)"
    using "3.prems" by (simp add: unifier_subst_eqs unifier_Cons)
  from "3.IH" [OF x this] show ?case using x by auto
next
  case (4 f ts g us E)
  from "4.prems" have fg: "f = g" and m: "map (subst \<tau>) ts = map (subst \<tau>) us" and E: "unifier \<tau> E"
    by (simp_all add: unifier_Cons)
  from m have l: "length ts = length us" by (rule map_eq_imp_length_eq)
  then have "unifier \<tau> (zip ts us @ E)" using m E by (simp add: unifier_append unifier_zip)
  from "4.IH" [OF _ this] fg l show ?case by simp
qed

section \<open>Properties of the literal index\<close>

lemma literal_unifier_iff:
  "literal_unifier \<tau> l q =
     (header l = header q \<and> length (lit_args l) = length (lit_args q) \<and>
      unifier \<tau> (zip (lit_args l) (lit_args q)))"
proof -
  have "subst_literal \<tau> l = subst_literal \<tau> q \<longleftrightarrow>
      predicate l = predicate q \<and> polarity l = polarity q \<and>
      map (subst \<tau>) (lit_args l) = map (subst \<tau>) (lit_args q)"
    by (cases l; cases q) (auto simp: subst_literal_def)
  moreover have "map (subst \<tau>) (lit_args l) = map (subst \<tau>) (lit_args q) \<longleftrightarrow>
      length (lit_args l) = length (lit_args q) \<and> unifier \<tau> (zip (lit_args l) (lit_args q))"
    using unifier_zip [of "lit_args l" "lit_args q" \<tau>] map_eq_imp_length_eq by blast
  ultimately show ?thesis by (auto simp: literal_unifier_def header_def)
qed

lemma unify_literals_mgu:
  assumes "unify_literals l q = Some \<sigma>"
  shows "literal_mgu \<sigma> l q"
proof -
  from assms have h: "header l = header q" "length (lit_args l) = length (lit_args q)"
    and u: "unify_eqs (zip (lit_args l) (lit_args q)) = Some \<sigma>"
    by (auto simp: unify_literals_def split: if_splits)
  have "literal_unifier \<sigma> l q"
    using unify_eqs_sound [OF u] h by (simp add: literal_unifier_iff)
  moreover have "\<exists>\<delta>. \<tau> = compose \<sigma> \<delta>" if "literal_unifier \<tau> l q" for \<tau>
  proof -
    from that have "unifier \<tau> (zip (lit_args l) (lit_args q))" by (simp add: literal_unifier_iff)
    from unify_eqs_general [OF u this] show ?thesis by metis
  qed
  ultimately show ?thesis by (simp add: literal_mgu_def)
qed

lemma unifiable_iff: "unifiable l q = (unify_literals l q \<noteq> None)"
proof
  assume "unifiable l q"
  then obtain \<sigma> where "literal_unifier \<sigma> l q" by (auto simp: unifiable_def literal_mgu_def)
  then have h: "header l = header q" "length (lit_args l) = length (lit_args q)"
    and u: "unifier \<sigma> (zip (lit_args l) (lit_args q))"
    by (simp_all add: literal_unifier_iff)
  from unify_eqs_complete [OF u] h show "unify_literals l q \<noteq> None"
    by (auto simp: unify_literals_def)
next
  assume "unify_literals l q \<noteq> None"
  then obtain \<sigma> where "unify_literals l q = Some \<sigma>" by auto
  from unify_literals_mgu [OF this] show "unifiable l q" by (auto simp: unifiable_def)
qed

lemma unifiable_header: "unifiable l q \<Longrightarrow> header l = header q"
  by (auto simp: unifiable_def literal_mgu_def literal_unifier_iff)

lemma getUnifications_data:
  "map fst (getUnifications idx q c rs) =
     filter (\<lambda>d. unifiable (literal d) (query_literal q c)) (getTree idx q c)"
  by (simp add: getUnifications_def unifiable_iff Let_def comp_def)

lemma getUnifications_substitution:
  assumes "(d, s) \<in> set (getUnifications idx q c rs)"
  shows "if rs then \<exists>\<sigma>. s = Some \<sigma> \<and> literal_mgu \<sigma> (literal d) (query_literal q c) else s = None"
  using assms unify_literals_mgu [of "literal d" "query_literal q c"]
  by (auto simp: getUnifications_def Let_def)

lemma wf_index_handleLiteral:
  assumes "wf_index idx"
  shows "wf_index (handleLiteral idx lit cls ins)"
  using assms
  by (auto simp: wf_index_def handleLiteral_def getTree_def header_def Let_def
      dest: notin_set_remove1)

lemma wf_index_foldl:
  assumes "wf_index idx"
  shows "wf_index (foldl (\<lambda>idx (lit, cls, ins). handleLiteral idx lit cls ins) idx history)"
  using assms
  by (induction history arbitrary: idx) (auto simp: wf_index_handleLiteral)

lemma wf_index_of: "wf_index (index_of history)"
  unfolding index_of_def by (rule wf_index_foldl) (simp add: wf_index_def empty_index_def)

lemma header_query: "header (query_literal q c) = (predicate q, if c then \<not> polarity q else polarity q)"
  by (simp add: query_literal_def complementaryLiteral_def header_def)

lemma count_list_filter:
  "count_list (filter P xs) x = (if P x then count_list xs x else 0)"
  by (induction xs) auto

lemma stored_unifiable_tree:
  assumes "wf_index idx" "d \<in> set (idx h)" "unifiable (literal d) (query_literal q c)"
  shows "idx h = getTree idx q c"
proof -
  have "header (literal d) = h" using assms(1,2) unfolding wf_index_def by blast
  then have "h = header (literal d)" by simp
  also have "\<dots> = header (query_literal q c)" using assms(3) by (rule unifiable_header)
  finally show ?thesis by (simp add: header_query getTree_def)
qed

lemma S4_index:
  "getTree (index_of history_S4) (lit_p t) False =
     [\<lparr>clause = 101, literal = lit_p (App 21 [Var 10])\<rparr>,
      \<lparr>clause = 102, literal = lit_p (App 21 [App 22 [Var 11]])\<rparr>,
      \<lparr>clause = 103, literal = lit_p (Var 12)\<rparr>]"
  by (simp add: index_of_def history_S4_def handleLiteral_def getTree_def header_def lit_p_def
      empty_index_def)

lemma S4_unify:
  "unify_literals (lit_p (App 21 [Var 10])) (lit_p (App 21 [App 22 [App 23 []]])) \<noteq> None"
  "unify_literals (lit_p (App 21 [App 22 [Var 11]])) (lit_p (App 21 [App 22 [App 23 []]])) \<noteq> None"
  "unify_literals (lit_p (Var 12)) (lit_p (App 21 [App 22 [App 23 []]])) \<noteq> None"
  "unify_literals (lit_p (App 21 [Var 10])) (lit_p (App 22 [App 23 []])) = None"
  "unify_literals (lit_p (App 21 [App 22 [Var 11]])) (lit_p (App 22 [App 23 []])) = None"
  "unify_literals (lit_p (Var 12)) (lit_p (App 22 [App 23 []])) \<noteq> None"
  by (simp_all add: unify_literals_def lit_p_def header_def subst_eqs_def)

lemma S4_results:
  "map fst (getUnifications (index_of history_S4) (lit_p (App 21 [App 22 [App 23 []]])) False False) =
     [\<lparr>clause = 101, literal = lit_p (App 21 [Var 10])\<rparr>,
      \<lparr>clause = 102, literal = lit_p (App 21 [App 22 [Var 11]])\<rparr>,
      \<lparr>clause = 103, literal = lit_p (Var 12)\<rparr>]"
  "map fst (getUnifications (index_of history_S4) (lit_p (App 22 [App 23 []])) False False) =
     [\<lparr>clause = 103, literal = lit_p (Var 12)\<rparr>]"
  by (simp_all add: getUnifications_def S4_index query_literal_def S4_unify Let_def)

text \<open>
  C7. On the index built by a history of insertions and removals, \<open>getUnifications\<close> yields
  only leaf data of the tree it consults whose literal has a most general unifier with the
  query (the unifier comes with the datum when substitutions are retrieved); every stored
  leaf datum, of whatever tree, whose literal has a most general unifier with the query is
  yielded as often as it is stored, hence exactly once when it was inserted once; and the
  results come in the order of insertion, a function of the history.
\<close>

theorem getUnifications_sound_complete:
  fixes history :: "('f Literal \<times> nat \<times> bool) list"
  shows "(\<forall>r \<in> set (getUnifications (index_of history) q c rs).
        fst r \<in> set (getTree (index_of history) q c) \<and>
        unifiable (literal (fst r)) (query_literal q c) \<and>
        (if rs then \<exists>\<sigma>. snd r = Some \<sigma> \<and> literal_mgu \<sigma> (literal (fst r)) (query_literal q c)
         else snd r = None))
   \<and> (\<forall>h. \<forall>d \<in> set (index_of history h). unifiable (literal d) (query_literal q c) \<longrightarrow>
        d \<in> fst ` set (getUnifications (index_of history) q c rs) \<and>
        count_list (map fst (getUnifications (index_of history) q c rs)) d
          = count_list (index_of history h) d)
   \<and> map fst (getUnifications (index_of history) q c rs)
        = filter (\<lambda>d. unifiable (literal d) (query_literal q c)) (getTree (index_of history) q c)
   \<and> (distinct (getTree (index_of history) q c) \<longrightarrow>
        distinct (map fst (getUnifications (index_of history) q c rs)))"
proof -
  let ?idx = "index_of history"
  let ?res = "getUnifications ?idx q c rs"
  note data = getUnifications_data [of ?idx q c rs]
  have 1: "fst r \<in> set (getTree ?idx q c) \<and> unifiable (literal (fst r)) (query_literal q c) \<and>
        (if rs then \<exists>\<sigma>. snd r = Some \<sigma> \<and> literal_mgu \<sigma> (literal (fst r)) (query_literal q c)
         else snd r = None)" if r: "r \<in> set ?res" for r
  proof -
    from r have "fst r \<in> set (map fst ?res)" by simp
    then have "fst r \<in> set (getTree ?idx q c) \<and> unifiable (literal (fst r)) (query_literal q c)"
      unfolding data by simp
    moreover from r have "(fst r, snd r) \<in> set ?res" by simp
    from getUnifications_substitution [OF this]
    have "if rs then \<exists>\<sigma>. snd r = Some \<sigma> \<and> literal_mgu \<sigma> (literal (fst r)) (query_literal q c)
         else snd r = None" .
    ultimately show ?thesis by blast
  qed
  have 2: "d \<in> fst ` set ?res \<and> count_list (map fst ?res) d = count_list (?idx h) d"
    if d: "d \<in> set (?idx h)" and u: "unifiable (literal d) (query_literal q c)" for h d
  proof -
    have t: "?idx h = getTree ?idx q c"
      by (rule stored_unifiable_tree [OF wf_index_of d u])
    have "d \<in> set (map fst ?res)" unfolding data using d u t by simp
    moreover have "count_list (map fst ?res) d = count_list (?idx h) d"
      unfolding data using u t by (simp add: count_list_filter)
    ultimately show ?thesis by simp
  qed
  have 3: "distinct (map fst ?res)" if "distinct (getTree ?idx q c)"
    unfolding data using that by simp
  from 1 2 3 data show ?thesis by blast
qed

theorem getUnifications_sound_complete_witness:
  "map fst (getUnifications (index_of history_S4) (lit_p (App 21 [App 22 [App 23 []]])) False False) =
     [\<lparr>clause = 101, literal = lit_p (App 21 [Var 10])\<rparr>,
      \<lparr>clause = 102, literal = lit_p (App 21 [App 22 [Var 11]])\<rparr>,
      \<lparr>clause = 103, literal = lit_p (Var 12)\<rparr>]
   \<and> map fst (getUnifications (index_of history_S4) (lit_p (App 22 [App 23 []])) False False) =
     [\<lparr>clause = 103, literal = lit_p (Var 12)\<rparr>]
   \<and> unifiable (lit_p (App 21 [App 22 [Var 11]])) (lit_p (App 21 [App 22 [App 23 []]]))
   \<and> unifiable (lit_p (Var 12)) (lit_p (App 22 [App 23 []]))
   \<and> \<not> unifiable (lit_p (App 21 [Var 10])) (lit_p (App 22 [App 23 []]))"
proof -
  note t1 = getUnifications_sound_complete
    [of history_S4 "lit_p (App 21 [App 22 [App 23 []]])" False False]
  note t2 = getUnifications_sound_complete [of history_S4 "lit_p (App 22 [App 23 []])" False False]
  from t1 have a: "filter (\<lambda>d. unifiable (literal d) (lit_p (App 21 [App 22 [App 23 []]])))
      (getTree (index_of history_S4) (lit_p (App 21 [App 22 [App 23 []]])) False)
    = map fst (getUnifications (index_of history_S4) (lit_p (App 21 [App 22 [App 23 []]])) False False)"
    by (simp add: query_literal_def)
  from t2 have b: "filter (\<lambda>d. unifiable (literal d) (lit_p (App 22 [App 23 []])))
      (getTree (index_of history_S4) (lit_p (App 22 [App 23 []])) False)
    = map fst (getUnifications (index_of history_S4) (lit_p (App 22 [App 23 []])) False False)"
    by (simp add: query_literal_def)
  have u1: "unifiable (lit_p (App 21 [App 22 [Var 11]])) (lit_p (App 21 [App 22 [App 23 []]]))"
    using a unfolding S4_results S4_index by (simp split: if_splits)
  have u2: "unifiable (lit_p (Var 12)) (lit_p (App 22 [App 23 []]))"
    and u3: "\<not> unifiable (lit_p (App 21 [Var 10])) (lit_p (App 22 [App 23 []]))"
    using b unfolding S4_results S4_index by (simp_all split: if_splits)
  from u1 u2 u3 S4_results show ?thesis by simp
qed

end
